theory Spec2Isabelle
  imports Complex_Main "HOL-Library.AList"
begin

text \<open>
  A shallow embedding of the query helpers of mongoose-api-helpers: the class
  \<^verbatim>\<open>ApiFeatures\<close> (filter, search, sort, limitFields, paginate, populate), which turns
  the parameters of a request into calls on a query handle, and the function
  \<^verbatim>\<open>getPagination\<close>. Definitions come first; the properties follow.
\<close>

section \<open>JavaScript numbers\<close>

text \<open>
  A number is an IEEE 754 double. \<open>Num r\<close> is the finite double of value \<open>r\<close>, with
  \<open>Num 0\<close> the positive zero; \<open>NegZero\<close> is the negative zero. An operation computes
  the exact rational result and rounds it to the nearest double, a tie going to the even
  significand.
\<close>

datatype jsnum = Num rat | NegZero | PosInf | NegInf | NaN

subsection \<open>Rounding to a double\<close>

definition pow2 :: "int \<Rightarrow> rat" where
  "pow2 e = (if 0 \<le> e then 2 ^ nat e else 1 / 2 ^ nat (- e))"

lemma pow2_powi: "pow2 e = 2 powi e"
  by (simp add: pow2_def power_int_def inverse_eq_divide power_one_over)

lemma pow2_pos [simp]: "0 < pow2 e"
  by (simp add: pow2_powi)

lemma pow2_nonzero [simp]: "pow2 e \<noteq> 0"
  by (simp add: pow2_powi)

lemma pow2_add: "pow2 (a + b) = pow2 a * pow2 b"
  by (simp add: pow2_powi power_int_add)

lemma pow2_minus: "pow2 (- e) = 1 / pow2 e"
  by (simp add: pow2_powi power_int_minus_divide)

text \<open>The powers are evaluated by repeated squaring.\<close>

lemma pow2_code [code]:
  "pow2 e =
     (if e < 0 then 1 / pow2 (- e)
      else if e = 0 then 1
      else let h = pow2 (e div 2) in if even e then h * h else 2 * h * h)"
proof -
  have a: "pow2 e = pow2 (e div 2) * pow2 (e div 2)" if "even e"
  proof -
    have "e = e div 2 + e div 2" using that by presburger
    then show ?thesis using pow2_add [of "e div 2" "e div 2"] by simp
  qed
  have b: "pow2 e = 2 * pow2 (e div 2) * pow2 (e div 2)" if "odd e"
  proof -
    have "e = 1 + (e div 2 + e div 2)" using that by presburger
    then have "pow2 e = pow2 1 * (pow2 (e div 2) * pow2 (e div 2))"
      using pow2_add [of 1 "e div 2 + e div 2"] pow2_add [of "e div 2" "e div 2"] by simp
    then show ?thesis by (simp add: pow2_def)
  qed
  have z: "pow2 0 = 1" by (simp add: pow2_def)
  show ?thesis
    using a b by (simp add: Let_def pow2_minus z)
qed

text \<open>The number of binary digits of a positive integer.\<close>

function bit_length :: "int \<Rightarrow> int" where
  "bit_length n = (if n \<le> 0 then 0 else 1 + bit_length (n div 2))"
  by pat_completeness auto
termination
  by (relation "measure nat") auto

declare bit_length.simps [simp del]

text \<open>
  The binade of a positive rational \<open>x\<close> is the exponent \<open>e\<close> with
  \<open>2^e \<le> x < 2^(e+1)\<close>, read off the integer part of \<open>x\<close> or of its inverse.
\<close>

definition binade :: "rat \<Rightarrow> int" where
  "binade x =
     (if 1 \<le> x then bit_length \<lfloor>x\<rfloor> - 1 else - bit_length (\<lceil>1 / x\<rceil> - 1))"

definition round_half_even :: "rat \<Rightarrow> int" where
  "round_half_even q =
     (let f = \<lfloor>q\<rfloor>; r = q - of_int f
      in if r < 1 / 2 then f else if 1 / 2 < r then f + 1 else if even f then f else f + 1)"

text \<open>
  The double nearest to a positive rational: the significand has 53 binary digits, so
  in the binade \<open>e\<close> the doubles are the multiples of \<open>2^(e-52)\<close>, and of \<open>2^(-1074)\<close>
  among the subnormal numbers. A result of \<open>2^1024\<close> or more is an overflow (\<open>None\<close>).
\<close>

definition round_mag :: "rat \<Rightarrow> rat option" where
  "round_mag x =
     (let e = binade x;
          p = max (e - 52) (- 1074);
          m = round_half_even (x / pow2 p);
          r = of_int m * pow2 p
      in if r < pow2 1024 then Some r else None)"

definition signed_zero :: "bool \<Rightarrow> jsnum" where
  "signed_zero neg = (if neg then NegZero else Num 0)"

definition signed_inf :: "bool \<Rightarrow> jsnum" where
  "signed_inf neg = (if neg then NegInf else PosInf)"

text \<open>
  The double of a rational other than zero: an overflow is an infinity, an underflow is
  a zero, each with the sign of the rational.
\<close>

definition to_double :: "rat \<Rightarrow> jsnum" where
  "to_double x =
     (case round_mag \<bar>x\<bar> of
        None \<Rightarrow> signed_inf (x < 0)
      | Some r \<Rightarrow> if r = 0 then signed_zero (x < 0) else Num (if x < 0 then - r else r))"

subsection \<open>Arithmetic and comparison\<close>

fun sign_bit :: "jsnum \<Rightarrow> bool" where
  "sign_bit (Num a) = (a < 0)"
| "sign_bit NegZero = True"
| "sign_bit NegInf = True"
| "sign_bit _ = False"

fun is_zero :: "jsnum \<Rightarrow> bool" where
  "is_zero (Num a) = (a = 0)"
| "is_zero NegZero = True"
| "is_zero _ = False"

fun is_inf :: "jsnum \<Rightarrow> bool" where
  "is_inf PosInf = True"
| "is_inf NegInf = True"
| "is_inf _ = False"

definition is_finite :: "jsnum \<Rightarrow> bool" where
  "is_finite x = (case x of Num _ \<Rightarrow> True | NegZero \<Rightarrow> True | _ \<Rightarrow> False)"

text \<open>The value of a finite number.\<close>

fun the_rat :: "jsnum \<Rightarrow> rat" where
  "the_rat (Num a) = a"
| "the_rat _ = 0"

text \<open>
  \<^verbatim>\<open>x / y\<close>. The sign of the result is the exclusive or of the signs; a zero divisor
  gives an infinity, or NaN when the dividend is a zero too.
\<close>

definition js_div :: "jsnum \<Rightarrow> jsnum \<Rightarrow> jsnum" where
  "js_div x y =
     (let s = (sign_bit x \<noteq> sign_bit y) in
      if x = NaN \<or> y = NaN then NaN
      else if is_inf x then (if is_inf y then NaN else signed_inf s)
      else if is_inf y then signed_zero s
      else if is_zero y then (if is_zero x then NaN else signed_inf s)
      else if is_zero x then signed_zero s
      else to_double (the_rat x / the_rat y))"

text \<open>\<^verbatim>\<open>x * y\<close>: an infinity times a zero is NaN.\<close>

definition js_mul :: "jsnum \<Rightarrow> jsnum \<Rightarrow> jsnum" where
  "js_mul x y =
     (let s = (sign_bit x \<noteq> sign_bit y) in
      if x = NaN \<or> y = NaN then NaN
      else if is_inf x \<or> is_inf y then (if is_zero x \<or> is_zero y then NaN else signed_inf s)
      else if is_zero x \<or> is_zero y then signed_zero s
      else to_double (the_rat x * the_rat y))"

text \<open>
  \<^verbatim>\<open>x + y\<close>: the two infinities add up to NaN; an exact sum of zero is the positive
  zero unless both operands are the negative zero.
\<close>

definition js_add :: "jsnum \<Rightarrow> jsnum \<Rightarrow> jsnum" where
  "js_add x y =
     (if x = NaN \<or> y = NaN then NaN
      else if is_inf x then (if is_inf y \<and> x \<noteq> y then NaN else x)
      else if is_inf y then y
      else if the_rat x + the_rat y = 0 then signed_zero (x = NegZero \<and> y = NegZero)
      else to_double (the_rat x + the_rat y))"

fun js_neg :: "jsnum \<Rightarrow> jsnum" where
  "js_neg (Num a) = (if a = 0 then NegZero else Num (- a))"
| "js_neg NegZero = Num 0"
| "js_neg PosInf = NegInf"
| "js_neg NegInf = PosInf"
| "js_neg NaN = NaN"

text \<open>\<^verbatim>\<open>x - y\<close> is \<^verbatim>\<open>x + (-y)\<close>.\<close>

definition js_sub :: "jsnum \<Rightarrow> jsnum \<Rightarrow> jsnum" where
  "js_sub x y = js_add x (js_neg y)"

text \<open>\<^verbatim>\<open>Math.ceil\<close>: a number between -1 and 0 goes to the negative zero.\<close>

fun Math_ceil :: "jsnum \<Rightarrow> jsnum" where
  "Math_ceil (Num a) = (if - 1 < a \<and> a < 0 then NegZero else Num (of_int \<lceil>a\<rceil>))"
| "Math_ceil x = x"

text \<open>\<^verbatim>\<open>a < b\<close>: false as soon as one side is NaN; the two zeros are equal.\<close>

fun js_lt :: "jsnum \<Rightarrow> jsnum \<Rightarrow> bool" where
  "js_lt NaN _ = False"
| "js_lt _ NaN = False"
| "js_lt PosInf _ = False"
| "js_lt _ PosInf = True"
| "js_lt _ NegInf = False"
| "js_lt NegInf _ = True"
| "js_lt x y = (the_rat x < the_rat y)"

definition js_gt :: "jsnum \<Rightarrow> jsnum \<Rightarrow> bool" where
  "js_gt a b = js_lt b a"

abbreviation js_int :: "int \<Rightarrow> jsnum" where
  "js_int n \<equiv> Num (of_int n)"

section \<open>The pagination formatter\<close>

record PaginationInfo =
  total :: jsnum
  pages :: jsnum
  currentPage :: jsnum
  limit :: jsnum
  hasNext :: bool
  hasPrevious :: bool
  nextPage :: "jsnum option"
  previousPage :: "jsnum option"

definition getPagination :: "jsnum \<Rightarrow> jsnum \<Rightarrow> jsnum \<Rightarrow> PaginationInfo" where
  "getPagination total' limit' page =
     (let pages' = Math_ceil (js_div total' limit');
          hasNext' = js_lt page pages';
          hasPrevious' = js_gt page (Num 1)
      in \<lparr> total = total',
           pages = pages',
           currentPage = page,
           limit = limit',
           hasNext = hasNext',
           hasPrevious = hasPrevious',
           nextPage = (if hasNext' then Some (js_add page (Num 1)) else None),
           previousPage = (if hasPrevious' then Some (js_sub page (Num 1)) else None) \<rparr>)"

section \<open>Parameter values\<close>

text \<open>
  The parameter mapping is a JavaScript object of JSON data: a query-string parser
  delivers strings, arrays and nested objects, a programmatic caller may add null,
  booleans and integers. An object is the list of its entries in enumeration order.
  A string is a list of code units below 256.
\<close>

datatype json =
    JNull
  | JBool bool
  | JNum int
  | JStr string
  | JArr "json list"
  | JObj "(string \<times> json) list"

type_synonym QueryString = "(string \<times> json) list"

text \<open>
  The exceptions of the code are error values. \<open>OutOfModel\<close> is no exception of
  JavaScript: it marks a text that \<^verbatim>\<open>JSON.parse\<close> reads and the model does not (an
  escape of a code unit above 255, a number with a fraction or an exponent). \<open>DbError\<close>
  is a failure of the database.
\<close>

datatype error = SyntaxError | TypeError | OutOfModel | DbError

text \<open>Truthiness, as \<^verbatim>\<open>if (x)\<close>, \<^verbatim>\<open>x ? a : b\<close> and \<^verbatim>\<open>x || y\<close> test it.\<close>

fun truthy :: "json \<Rightarrow> bool" where
  "truthy JNull = False"
| "truthy (JBool b) = b"
| "truthy (JNum n) = (n \<noteq> 0)"
| "truthy (JStr s) = (s \<noteq> [])"
| "truthy (JArr _) = True"
| "truthy (JObj _) = True"

text \<open>A property read \<^verbatim>\<open>obj.key\<close>: \<open>None\<close> is \<^verbatim>\<open>undefined\<close>, which is falsy.\<close>

definition get_prop :: "(string \<times> 'a) list \<Rightarrow> string \<Rightarrow> 'a option" where
  "get_prop obj k = map_of obj k"

definition truthy_opt :: "json option \<Rightarrow> bool" where
  "truthy_opt v = (case v of None \<Rightarrow> False | Some x \<Rightarrow> truthy x)"

subsection \<open>Numbers to strings and back\<close>

definition digit_char :: "nat \<Rightarrow> char" where
  "digit_char d = ''0123456789'' ! d"

function digits :: "nat \<Rightarrow> string" where
  "digits n = (if n < 10 then [digit_char n] else digits (n div 10) @ [digit_char (n mod 10)])"
  by pat_completeness auto
termination
  by (relation "measure id") auto

declare digits.simps [simp del]

definition show_int :: "int \<Rightarrow> string" where
  "show_int i = (if i < 0 then CHR ''-'' # digits (nat (- i)) else digits (nat i))"

definition join :: "'a list \<Rightarrow> 'a list list \<Rightarrow> 'a list" where
  "join sep xs = concat (case xs of [] \<Rightarrow> [] | y # ys \<Rightarrow> y # map (\<lambda>z. sep @ z) ys)"

text \<open>
  \<^verbatim>\<open>ToString\<close>: an array is its elements joined by commas, with null as the empty
  string; an object is \<^verbatim>\<open>[object Object]\<close>.
\<close>

fun ToString :: "json \<Rightarrow> string" where
  "ToString JNull = ''null''"
| "ToString (JBool b) = (if b then ''true'' else ''false'')"
| "ToString (JNum n) = show_int n"
| "ToString (JStr s) = s"
| "ToString (JArr xs) = join '','' (map (\<lambda>x. if x = JNull then [] else ToString x) xs)"
| "ToString (JObj _) = ''[object Object]''"

definition ToString_opt :: "json option \<Rightarrow> string" where
  "ToString_opt v = (case v of None \<Rightarrow> ''undefined'' | Some x \<Rightarrow> ToString x)"

definition is_digit :: "char \<Rightarrow> bool" where
  "is_digit c = (let n = (of_char c :: nat) in 48 \<le> n \<and> n \<le> 57)"

definition digit_val :: "char \<Rightarrow> int" where
  "digit_val c = int (of_char c) - 48"

definition digits_val :: "string \<Rightarrow> int" where
  "digits_val ds = foldl (\<lambda>a c. 10 * a + digit_val c) 0 ds"

text \<open>The white space \<^verbatim>\<open>parseInt\<close> skips, among the code units below 256.\<close>

definition is_js_space :: "char \<Rightarrow> bool" where
  "is_js_space c = ((of_char c :: nat) \<in> {9, 10, 11, 12, 13, 32, 160})"

text \<open>
  \<^verbatim>\<open>parseInt(s, 10)\<close>: leading white space, a sign, then the longest run of decimal
  digits; NaN when there is no digit. The result is the double of the integer read: the
  integer itself when it has at most 53 binary digits, the nearest double otherwise, an
  infinity past the largest double. A numeral of zero gives the zero of its sign.
\<close>

definition parseInt :: "string \<Rightarrow> jsnum" where
  "parseInt s =
     (let s1 = dropWhile is_js_space s;
          neg = (s1 \<noteq> [] \<and> hd s1 = CHR ''-'');
          s2 = (if s1 \<noteq> [] \<and> (hd s1 = CHR ''+'' \<or> hd s1 = CHR ''-'') then tl s1 else s1);
          z = takeWhile is_digit s2
      in if z = [] then NaN
         else if digits_val z = 0 then signed_zero neg
         else to_double (of_int (if neg then - digits_val z else digits_val z)))"

text \<open>\<^verbatim>\<open>n || d\<close> on a number: NaN and the two zeros are falsy.\<close>

definition or_default :: "jsnum \<Rightarrow> jsnum \<Rightarrow> jsnum" where
  "or_default n d = (if n = NaN \<or> is_zero n then d else n)"

text \<open>\<^verbatim>\<open>s.split(",")\<close>: the empty string splits into one empty field.\<close>

fun split_on :: "char \<Rightarrow> string \<Rightarrow> string list" where
  "split_on c [] = [[]]"
| "split_on c (x # xs) =
     (if x = c then [] # split_on c xs
      else (case split_on c xs of [] \<Rightarrow> [[x]] | w # ws \<Rightarrow> (x # w) # ws))"

text \<open>
  A method call \<^verbatim>\<open>v.split(",")\<close> on a parameter value: only a string has the method,
  on every other value the call is a \<^verbatim>\<open>TypeError\<close>.
\<close>

definition split_comma :: "json \<Rightarrow> error + string list" where
  "split_comma v = (case v of JStr s \<Rightarrow> Inr (split_on CHR '','' s) | _ \<Rightarrow> Inl TypeError)"

section \<open>The query handle\<close>

text \<open>
  The handle belongs to the object-document mapper. The model records what the
  translator asks of it: the predicates given to \<^verbatim>\<open>find\<close> in order, the argument
  of the latest call of \<^verbatim>\<open>sort\<close>, \<^verbatim>\<open>select\<close>, \<^verbatim>\<open>skip\<close> and \<^verbatim>\<open>limit\<close>, and the paths
  given to \<^verbatim>\<open>populate\<close> in order.
  A date built by \<^verbatim>\<open>new Date(v)\<close> is kept as its argument, a regular expression as its
  source and flags.
\<close>

datatype regexp = RegExp string string

datatype fval = Plain json | DateRange "(string \<times> json) list"

datatype predicate =
    Filters "(string \<times> fval) list"
  | AnyOf "(string \<times> regexp) list"

record Query =
  conditions :: "predicate list"
  sort_spec :: "string option"
  select_spec :: "string option"
  skip_count :: "jsnum option"
  limit_count :: "jsnum option"
  populate_paths :: "string list"

definition Query_find :: "predicate \<Rightarrow> Query \<Rightarrow> Query" where
  "Query_find p q = q\<lparr>conditions := conditions q @ [p]\<rparr>"

definition Query_sort :: "string \<Rightarrow> Query \<Rightarrow> Query" where
  "Query_sort s q = q\<lparr>sort_spec := Some s\<rparr>"

definition Query_select :: "string \<Rightarrow> Query \<Rightarrow> Query" where
  "Query_select s q = q\<lparr>select_spec := Some s\<rparr>"

definition Query_skip :: "jsnum \<Rightarrow> Query \<Rightarrow> Query" where
  "Query_skip n q = q\<lparr>skip_count := Some n\<rparr>"

definition Query_limit :: "jsnum \<Rightarrow> Query \<Rightarrow> Query" where
  "Query_limit n q = q\<lparr>limit_count := Some n\<rparr>"

definition Query_populate :: "string \<Rightarrow> Query \<Rightarrow> Query" where
  "Query_populate f q = q\<lparr>populate_paths := populate_paths q @ [f]\<rparr>"

section \<open>The translator\<close>

record ApiFeatures =
  query :: Query
  queryString :: QueryString
  total :: "nat option"

definition new_ApiFeatures :: "Query \<Rightarrow> QueryString \<Rightarrow> ApiFeatures" where
  "new_ApiFeatures q qs = \<lparr> query = q, queryString = qs, total = None \<rparr>"

subsection \<open>search\<close>

definition default_searchFields :: "string list" where
  "default_searchFields = [''name'', ''email'', ''title'']"

text \<open>
  \<open>valid_pattern\<close> is the pattern grammar of the regular-expression engine, which the
  constructor checks: \<^verbatim>\<open>new RegExp\<close> raises a \<^verbatim>\<open>SyntaxError\<close> on a source it rejects.
  An omitted argument (\<open>None\<close>) takes the default field list.
\<close>

definition search :: "(string \<Rightarrow> bool) \<Rightarrow> string list option \<Rightarrow> ApiFeatures \<Rightarrow> error + ApiFeatures" where
  "search valid_pattern searchFields this =
     (let fieldList = (case searchFields of None \<Rightarrow> default_searchFields | Some fs \<Rightarrow> fs) in
      case get_prop (queryString this) ''search'' of
        None \<Rightarrow> Inr this
      | Some v \<Rightarrow>
          if truthy v then
            (if valid_pattern (ToString v) then
               (let searchRegex = RegExp (ToString v) ''i'';
                    searchQuery = AnyOf (map (\<lambda>field. (field, searchRegex)) fieldList)
                in Inr (this\<lparr>query := Query_find searchQuery (query this)\<rparr>))
             else Inl SyntaxError)
          else Inr this)"

subsection \<open>sort and limitFields\<close>

definition ApiFeatures_sort :: "ApiFeatures \<Rightarrow> error + ApiFeatures" where
  "ApiFeatures_sort this =
     (case get_prop (queryString this) ''sort'' of
        None \<Rightarrow> Inr (this\<lparr>query := Query_sort ''-createdAt'' (query this)\<rparr>)
      | Some v \<Rightarrow>
          if truthy v then
            (case split_comma v of
               Inl e \<Rightarrow> Inl e
             | Inr parts \<Rightarrow> Inr (this\<lparr>query := Query_sort (join '' '' parts) (query this)\<rparr>))
          else Inr (this\<lparr>query := Query_sort ''-createdAt'' (query this)\<rparr>))"

definition limitFields :: "ApiFeatures \<Rightarrow> error + ApiFeatures" where
  "limitFields this =
     (case get_prop (queryString this) ''fields'' of
        None \<Rightarrow> Inr (this\<lparr>query := Query_select ''-__v'' (query this)\<rparr>)
      | Some v \<Rightarrow>
          if truthy v then
            (case split_comma v of
               Inl e \<Rightarrow> Inl e
             | Inr parts \<Rightarrow> Inr (this\<lparr>query := Query_select (join '' '' parts) (query this)\<rparr>))
          else Inr (this\<lparr>query := Query_select ''-__v'' (query this)\<rparr>))"

subsection \<open>paginate\<close>

definition paginate_page :: "QueryString \<Rightarrow> jsnum" where
  "paginate_page qs = or_default (parseInt (ToString_opt (get_prop qs ''page''))) (Num 1)"

definition paginate_limit :: "QueryString \<Rightarrow> jsnum" where
  "paginate_limit qs = or_default (parseInt (ToString_opt (get_prop qs ''limit''))) (Num 100)"

definition paginate :: "ApiFeatures \<Rightarrow> ApiFeatures" where
  "paginate this =
     (let page = paginate_page (queryString this);
          limit' = paginate_limit (queryString this);
          skip = js_mul (js_sub page (Num 1)) limit'
      in this\<lparr>query := Query_limit limit' (Query_skip skip (query this))\<rparr>)"

subsection \<open>populate\<close>

text \<open>An omitted argument (\<open>None\<close>) is the empty list.\<close>

definition populate :: "string list option \<Rightarrow> ApiFeatures \<Rightarrow> error + ApiFeatures" where
  "populate populateOptions this =
     (let opts = (case populateOptions of None \<Rightarrow> [] | Some fs \<Rightarrow> fs) in
      case (case get_prop (queryString this) ''populate'' of
              None \<Rightarrow> Inr opts
            | Some v \<Rightarrow> if truthy v then split_comma v else Inr opts) of
        Inl e \<Rightarrow> Inl e
      | Inr populateFields \<Rightarrow>
          Inr (foldl (\<lambda>t field. t\<lparr>query := Query_populate field (query t)\<rparr>) this populateFields))"

subsection \<open>JSON.stringify\<close>

text \<open>
  \<^verbatim>\<open>JSON.stringify\<close> without indentation. In a string the quote, the backslash and the
  control characters are escaped, the five with a short escape by it, the others as
  \<^verbatim>\<open>\u00XX\<close> in lower-case hexadecimal; every other character is written as it is.
\<close>

definition dquote :: char where
  "dquote = CHR 0x22"

definition backslash :: char where
  "backslash = CHR 0x5C"

definition hex_digit :: "nat \<Rightarrow> char" where
  "hex_digit d = ''0123456789abcdef'' ! d"

definition quote_char :: "char \<Rightarrow> string" where
  "quote_char c =
     (if c = CHR 0x08 then [backslash, CHR ''b'']
      else if c = CHR 0x09 then [backslash, CHR ''t'']
      else if c = CHR 0x0A then [backslash, CHR ''n'']
      else if c = CHR 0x0C then [backslash, CHR ''f'']
      else if c = CHR 0x0D then [backslash, CHR ''r'']
      else if c = dquote then [backslash, dquote]
      else if c = backslash then [backslash, backslash]
      else if (of_char c :: nat) < 0x20 then
        [backslash, CHR ''u'', CHR ''0'', CHR ''0'',
         hex_digit (of_char c div 16), hex_digit (of_char c mod 16)]
      else [c])"

definition escape_body :: "string \<Rightarrow> string" where
  "escape_body s = concat (map quote_char s)"

definition quote :: "string \<Rightarrow> string" where
  "quote s = dquote # escape_body s @ [dquote]"

fun JSON_stringify :: "json \<Rightarrow> string" where
  "JSON_stringify JNull = ''null''"
| "JSON_stringify (JBool b) = (if b then ''true'' else ''false'')"
| "JSON_stringify (JNum n) = show_int n"
| "JSON_stringify (JStr s) = quote s"
| "JSON_stringify (JArr xs) = ''['' @ join '','' (map JSON_stringify xs) @ '']''"
| "JSON_stringify (JObj kvs) =
     ''{'' @ join '','' (map (\<lambda>(k, v). quote k @ '':'' @ JSON_stringify v) kvs) @ ''}''"

subsection \<open>The operator rewriting\<close>

text \<open>
  Line 32: \<^verbatim>\<open>queryStr.replace(/\b(gte|gt|lte|lt|in|nin|eq|ne|regex|options)\b/g, ...)\<close>.
  A word character is a letter, a digit or the underscore; \<^verbatim>\<open>\b\<close> holds between a word
  character and a character that is none (or an end of the text). The scan goes from
  left to right and carries \<open>prev\<close>, whether the character before is a word character.
  At each position the alternatives are tried in their order; a match is replaced by a
  dollar sign and itself and the scan goes on behind it, otherwise the character is
  copied.
\<close>

definition is_word :: "char \<Rightarrow> bool" where
  "is_word c = (let n = (of_char c :: nat) in
      (97 \<le> n \<and> n \<le> 122) \<or> (65 \<le> n \<and> n \<le> 90) \<or> (48 \<le> n \<and> n \<le> 57) \<or> n = 95)"

definition operators :: "string list" where
  "operators = [''gte'', ''gt'', ''lte'', ''lt'', ''in'', ''nin'', ''eq'', ''ne'', ''regex'', ''options'']"

definition starts_word :: "string \<Rightarrow> bool" where
  "starts_word s = (case s of [] \<Rightarrow> False | c # _ \<Rightarrow> is_word c)"

definition word_boundary :: "bool \<Rightarrow> string \<Rightarrow> bool" where
  "word_boundary prev rest = (prev \<noteq> starts_word rest)"

definition match_here :: "bool \<Rightarrow> string \<Rightarrow> string option" where
  "match_here prev s =
     (if word_boundary prev s then
        List.find (\<lambda>a. take (length a) s = a \<and>
                        word_boundary (is_word (last a)) (drop (length a) s)) operators
      else None)"

lemma match_here_length: "match_here prev s = Some a \<Longrightarrow> 0 < length a \<and> length a \<le> length s"
proof -
  assume "match_here prev s = Some a"
  then have f: "List.find (\<lambda>a. take (length a) s = a \<and>
      word_boundary (is_word (last a)) (drop (length a) s)) operators = Some a"
    by (simp add: match_here_def split: if_splits)
  then have "a \<in> set operators" and t: "take (length a) s = a"
    by (auto simp: find_Some_iff)
  then have "0 < length a" by (auto simp: operators_def)
  moreover have "length a \<le> length s"
  proof -
    have "length (take (length a) s) = length a" using t by simp
    then show ?thesis by simp
  qed
  ultimately show ?thesis by simp
qed

function replace_from :: "bool \<Rightarrow> string \<Rightarrow> string" where
  "replace_from prev [] = []"
| "replace_from prev (c # cs) =
     (case match_here prev (c # cs) of
        Some a \<Rightarrow> CHR ''$'' # a @ replace_from (is_word (last a)) (drop (length a) (c # cs))
      | None \<Rightarrow> c # replace_from (is_word c) cs)"
  by pat_completeness auto
termination
proof (relation "measure (\<lambda>(prev, s). length s)")
  fix prev c cs a
  assume "match_here prev (c # cs) = Some a"
  then show "((is_word (last a), drop (length a) (c # cs)), (prev, c # cs)) \<in> measure (\<lambda>(prev, s). length s)"
    using match_here_length [of prev "c # cs" a] by simp
qed simp_all

definition replace_ops :: "string \<Rightarrow> string" where
  "replace_ops s = replace_from False s"

text \<open>
  The same rewriting, said by words: every maximal run of word characters that is one of
  the operators takes a dollar sign in front, and nothing else changes.
\<close>

function rewrite_words :: "string \<Rightarrow> string" where
  "rewrite_words [] = []"
| "rewrite_words (c # cs) =
     (if is_word c then
        (let w = c # takeWhile is_word cs in
         (if w \<in> set operators then CHR ''$'' # w else w) @ rewrite_words (dropWhile is_word cs))
      else c # rewrite_words cs)"
  by pat_completeness auto
termination
  by (relation "measure length") (auto simp: less_Suc_eq_le length_dropWhile_le)

declare replace_from.simps [simp del]

subsection \<open>JSON.parse\<close>

text \<open>
  \<^verbatim>\<open>JSON.parse\<close>, in two passes: the text is cut into tokens, then a pushdown automaton
  reads the tokens. \<open>lex_string\<close> reads a string literal behind its opening quote and
  returns the string and the text behind the closing quote.
\<close>

datatype token =
    TLBrace | TRBrace | TLBracket | TRBracket | TColon | TComma
  | TStr string | TNum int | TNull | TTrue | TFalse

definition hex_val :: "char \<Rightarrow> nat option" where
  "hex_val c =
     (let n = (of_char c :: nat) in
      if 48 \<le> n \<and> n \<le> 57 then Some (n - 48)
      else if 97 \<le> n \<and> n \<le> 102 then Some (n - 87)
      else if 65 \<le> n \<and> n \<le> 70 then Some (n - 55)
      else None)"

definition unescape :: "char \<Rightarrow> char option" where
  "unescape e =
     (if e = dquote then Some dquote
      else if e = backslash then Some backslash
      else if e = CHR ''/'' then Some CHR ''/''
      else if e = CHR ''b'' then Some (CHR 0x08)
      else if e = CHR ''f'' then Some (CHR 0x0C)
      else if e = CHR ''n'' then Some (CHR 0x0A)
      else if e = CHR ''r'' then Some (CHR 0x0D)
      else if e = CHR ''t'' then Some (CHR 0x09)
      else None)"

definition cons_char :: "char \<Rightarrow> error + (string \<times> string) \<Rightarrow> error + (string \<times> string)" where
  "cons_char c r = (case r of Inl e \<Rightarrow> Inl e | Inr (s, rest) \<Rightarrow> Inr (c # s, rest))"

fun lex_string :: "string \<Rightarrow> error + (string \<times> string)" where
  "lex_string [] = Inl SyntaxError"
| "lex_string (c # cs) =
     (if c = dquote then Inr ([], cs)
      else if c = backslash then
        (case cs of
           [] \<Rightarrow> Inl SyntaxError
         | e # r \<Rightarrow>
             if e = CHR ''u'' then
               (case r of
                  h1 # h2 # h3 # h4 # r' \<Rightarrow>
                    (case (hex_val h1, hex_val h2, hex_val h3, hex_val h4) of
                       (Some a, Some b, Some c', Some d) \<Rightarrow>
                         if a = 0 \<and> b = 0 then cons_char (char_of (16 * c' + d)) (lex_string r')
                         else Inl OutOfModel
                     | _ \<Rightarrow> Inl SyntaxError)
                | _ \<Rightarrow> Inl SyntaxError)
             else
               (case unescape e of
                  None \<Rightarrow> Inl SyntaxError
                | Some ch \<Rightarrow> cons_char ch (lex_string r)))
      else if (of_char c :: nat) < 0x20 then Inl SyntaxError
      else cons_char c (lex_string cs))"

definition lex_number :: "string \<Rightarrow> error + (int \<times> string)" where
  "lex_number s =
     (let neg = (s \<noteq> [] \<and> hd s = CHR ''-'');
          s1 = (if neg then tl s else s);
          ds = takeWhile is_digit s1;
          rest = dropWhile is_digit s1
      in if ds = [] then Inl SyntaxError
         else if hd ds = CHR ''0'' \<and> 1 < length ds then Inl SyntaxError
         else if rest \<noteq> [] \<and> hd rest \<in> {CHR ''.'', CHR ''e'', CHR ''E''} then Inl OutOfModel
         else Inr (if neg then - digits_val ds else digits_val ds, rest))"

definition is_json_space :: "char \<Rightarrow> bool" where
  "is_json_space c = ((of_char c :: nat) \<in> {9, 10, 13, 32})"

definition cons_tok :: "token \<Rightarrow> error + token list \<Rightarrow> error + token list" where
  "cons_tok t r = (case r of Inl e \<Rightarrow> Inl e | Inr ts \<Rightarrow> Inr (t # ts))"

lemma cons_char_Inr: "cons_char c r = Inr (s, rest) \<Longrightarrow> \<exists>s'. r = Inr (s', rest) \<and> s = c # s'"
  by (auto simp: cons_char_def split: sum.splits)

lemma lex_string_length: "lex_string s = Inr (r, rest) \<Longrightarrow> length rest < length s"
proof (induction s arbitrary: r rule: lex_string.induct)
  case 1
  then show ?case by simp
next
  case (2 c cs)
  then show ?case
    by (fastforce simp: less_Suc_eq split: if_splits list.splits option.splits dest!: cons_char_Inr)
qed

lemma lex_number_length: "lex_number s = Inr (n, rest) \<Longrightarrow> length rest < length s"
proof -
  assume a: "lex_number s = Inr (n, rest)"
  define s1 where "s1 = (if s \<noteq> [] \<and> hd s = CHR ''-'' then tl s else s)"
  have r: "rest = dropWhile is_digit s1" and ne: "takeWhile is_digit s1 \<noteq> []"
    using a unfolding lex_number_def Let_def s1_def by (auto split: if_splits)
  have "length (dropWhile is_digit s1) < length s1"
    using ne by (cases s1) (auto simp: less_Suc_eq_le length_dropWhile_le split: if_splits)
  moreover have "length s1 \<le> length s" by (simp add: s1_def)
  ultimately show ?thesis using r by simp
qed

definition punctuation :: "char \<Rightarrow> token option" where
  "punctuation c =
     (if c = CHR ''{'' then Some TLBrace
      else if c = CHR ''}'' then Some TRBrace
      else if c = CHR ''['' then Some TLBracket
      else if c = CHR '']'' then Some TRBracket
      else if c = CHR '':'' then Some TColon
      else if c = CHR '','' then Some TComma
      else None)"

definition lex_literal :: "string \<Rightarrow> error + (token \<times> string)" where
  "lex_literal s =
     (if take 4 s = ''null'' then Inr (TNull, drop 4 s)
      else if take 4 s = ''true'' then Inr (TTrue, drop 4 s)
      else if take 5 s = ''false'' then Inr (TFalse, drop 5 s)
      else Inl SyntaxError)"

definition lex_token :: "string \<Rightarrow> error + (token \<times> string)" where
  "lex_token s =
     (case s of
        [] \<Rightarrow> Inl SyntaxError
      | c # cs \<Rightarrow>
          (case punctuation c of
             Some t \<Rightarrow> Inr (t, cs)
           | None \<Rightarrow>
               if c = dquote then
                 (case lex_string cs of
                    Inl e \<Rightarrow> Inl e
                  | Inr (str, rest) \<Rightarrow> Inr (TStr str, rest))
               else if c = CHR ''-'' \<or> is_digit c then
                 (case lex_number s of
                    Inl e \<Rightarrow> Inl e
                  | Inr (n, rest) \<Rightarrow> Inr (TNum n, rest))
               else lex_literal s))"

lemma lex_literal_length: "lex_literal s = Inr (t, rest) \<Longrightarrow> length rest < length s"
  unfolding lex_literal_def by (cases s) (auto split: if_splits)

lemma lex_token_length: "lex_token s = Inr (t, rest) \<Longrightarrow> length rest < length s"
proof (cases s)
  case Nil
  assume "lex_token s = Inr (t, rest)"
  then show ?thesis using Nil by (simp add: lex_token_def)
next
  case (Cons c cs)
  assume a: "lex_token s = Inr (t, rest)"
  show ?thesis
  proof (cases "punctuation c")
    case (Some p)
    then show ?thesis using a Cons by (simp add: lex_token_def)
  next
    case None
    consider (str) "c = dquote" | (num) "c \<noteq> dquote" "c = CHR ''-'' \<or> is_digit c"
      | (lit) "c \<noteq> dquote" "\<not> (c = CHR ''-'' \<or> is_digit c)" by blast
    then show ?thesis
    proof cases
      case str
      then obtain x where "lex_string cs = Inr (x, rest)"
        using a Cons None by (auto simp: lex_token_def split: sum.splits)
      then show ?thesis using lex_string_length Cons by fastforce
    next
      case num
      then obtain n where "lex_number s = Inr (n, rest)"
        using a Cons None by (auto simp: lex_token_def split: sum.splits)
      then show ?thesis using lex_number_length by blast
    next
      case lit
      then have "lex_literal s = Inr (t, rest)"
        using a Cons None by (auto simp: lex_token_def)
      then show ?thesis using lex_literal_length by blast
    qed
  qed
qed

function lex_all :: "string \<Rightarrow> error + token list" where
  "lex_all s =
     (let s' = dropWhile is_json_space s in
      if s' = [] then Inr []
      else (case lex_token s' of
              Inl e \<Rightarrow> Inl e
            | Inr (t, rest) \<Rightarrow> cons_tok t (lex_all rest)))"
  by pat_completeness auto
termination
proof (relation "measure length")
  fix s s' :: string and x t rest
  assume "s' = dropWhile is_json_space s" and "lex_token s' = Inr x" and "(t, rest) = x"
  then have "length rest < length s'" and "length s' \<le> length s"
    using lex_token_length [of s' t rest] by (auto simp: length_dropWhile_le)
  then show "(rest, s) \<in> measure length" by simp
qed simp

declare lex_all.simps [simp del]

text \<open>
  The parser is a pushdown automaton over the tokens. A frame is an array or an object
  under construction; a repeated key keeps its place and takes the later value.
\<close>

datatype frame = ArrF "json list" | ObjF "(string \<times> json) list" string

datatype pstate =
    S_value "frame list"
  | S_first_elem "frame list"
  | S_after_elem "json list" "frame list"
  | S_first_key "frame list"
  | S_key "(string \<times> json) list" "frame list"
  | S_colon "(string \<times> json) list" string "frame list"
  | S_after_member "(string \<times> json) list" "frame list"
  | S_done json

fun deliver :: "json \<Rightarrow> frame list \<Rightarrow> pstate" where
  "deliver v [] = S_done v"
| "deliver v (ArrF xs # stk) = S_after_elem (xs @ [v]) stk"
| "deliver v (ObjF ms k # stk) = S_after_member (AList.update k v ms) stk"

fun accept_value :: "frame list \<Rightarrow> token \<Rightarrow> error + pstate" where
  "accept_value stk (TStr s) = Inr (deliver (JStr s) stk)"
| "accept_value stk (TNum n) = Inr (deliver (JNum n) stk)"
| "accept_value stk TNull = Inr (deliver JNull stk)"
| "accept_value stk TTrue = Inr (deliver (JBool True) stk)"
| "accept_value stk TFalse = Inr (deliver (JBool False) stk)"
| "accept_value stk TLBracket = Inr (S_first_elem stk)"
| "accept_value stk TLBrace = Inr (S_first_key stk)"
| "accept_value stk _ = Inl SyntaxError"

fun step :: "pstate \<Rightarrow> token \<Rightarrow> error + pstate" where
  "step (S_value stk) t = accept_value stk t"
| "step (S_first_elem stk) t =
     (if t = TRBracket then Inr (deliver (JArr []) stk) else accept_value (ArrF [] # stk) t)"
| "step (S_after_elem xs stk) t =
     (if t = TComma then Inr (S_value (ArrF xs # stk))
      else if t = TRBracket then Inr (deliver (JArr xs) stk)
      else Inl SyntaxError)"
| "step (S_first_key stk) t =
     (case t of TRBrace \<Rightarrow> Inr (deliver (JObj []) stk)
              | TStr k \<Rightarrow> Inr (S_colon [] k stk)
              | _ \<Rightarrow> Inl SyntaxError)"
| "step (S_key ms stk) t =
     (case t of TStr k \<Rightarrow> Inr (S_colon ms k stk) | _ \<Rightarrow> Inl SyntaxError)"
| "step (S_colon ms k stk) t =
     (if t = TColon then Inr (S_value (ObjF ms k # stk)) else Inl SyntaxError)"
| "step (S_after_member ms stk) t =
     (if t = TComma then Inr (S_key ms stk)
      else if t = TRBrace then Inr (deliver (JObj ms) stk)
      else Inl SyntaxError)"
| "step (S_done v) t = Inl SyntaxError"

fun run :: "pstate \<Rightarrow> token list \<Rightarrow> error + pstate" where
  "run st [] = Inr st"
| "run st (t # ts) = (case step st t of Inl e \<Rightarrow> Inl e | Inr st' \<Rightarrow> run st' ts)"

definition JSON_parse :: "string \<Rightarrow> error + json" where
  "JSON_parse s =
     (case lex_all s of
        Inl e \<Rightarrow> Inl e
      | Inr ts \<Rightarrow>
          (case run (S_value []) ts of
             Inl e \<Rightarrow> Inl e
           | Inr (S_done v) \<Rightarrow> Inr v
           | Inr _ \<Rightarrow> Inl SyntaxError))"

subsection \<open>filter\<close>

definition excludedFields :: "string list" where
  "excludedFields = [''page'', ''sort'', ''limit'', ''fields'', ''search'', ''populate'']"

text \<open>A member read \<^verbatim>\<open>v.key\<close> on a parsed value: only an object has members.\<close>

definition member :: "json \<Rightarrow> string \<Rightarrow> json option" where
  "member v k = (case v of JObj kvs \<Rightarrow> get_prop kvs k | _ \<Rightarrow> None)"

text \<open>
  The date special case: the entries of \<^verbatim>\<open>dateFilter\<close>, each the argument of the
  \<^verbatim>\<open>new Date\<close> it holds.
\<close>

definition dateFilter :: "json \<Rightarrow> (string \<times> json) list" where
  "dateFilter d =
     (case member d ''$gte'' of
        None \<Rightarrow> []
      | Some g \<Rightarrow> if truthy g then [(''$gte'', g)] else []) @
     (case member d ''$lte'' of
        None \<Rightarrow> []
      | Some l \<Rightarrow> if truthy l then [(''$lte'', l)] else [])"

text \<open>Lines 26 to 28: the copy of the mapping without the reserved keys.\<close>

definition queryObj :: "QueryString \<Rightarrow> QueryString" where
  "queryObj qs = foldl (\<lambda>obj el. AList.delete el obj) qs excludedFields"

text \<open>Lines 39 to 45, on the entries of the parsed object.\<close>

definition apply_dateFilter :: "(string \<times> json) list \<Rightarrow> (string \<times> fval) list" where
  "apply_dateFilter kvs =
     (let filters = map (\<lambda>(k, v). (k, Plain v)) kvs in
      case get_prop kvs ''date'' of
        None \<Rightarrow> filters
      | Some d \<Rightarrow>
          if truthy d
          then AList.update ''date'' (DateRange (dateFilter d)) filters
          else filters)"

text \<open>
  Lines 26 to 45: the predicate built from the parameter mapping. A parse result that
  is not an object cannot come from the serialization of one; the model does not follow
  the code there.
\<close>

definition build_filters :: "QueryString \<Rightarrow> error + (string \<times> fval) list" where
  "build_filters qs =
     (let queryStr = replace_ops (JSON_stringify (JObj (queryObj qs)))
      in case JSON_parse queryStr of
           Inl e \<Rightarrow> Inl e
         | Inr (JObj kvs) \<Rightarrow> Inr (apply_dateFilter kvs)
         | Inr _ \<Rightarrow> Inl OutOfModel)"

text \<open>
  \<open>countDocuments\<close> is the database's answer to a count query. The result holds the
  translator and the count queries the call has sent. An exception is an error value
  alone: what it leaves of the translator is not kept.
\<close>

definition ApiFeatures_filter ::
  "(predicate \<Rightarrow> error + nat) \<Rightarrow> ApiFeatures \<Rightarrow> error + (ApiFeatures \<times> predicate list)" where
  "ApiFeatures_filter countDocuments this =
     (case build_filters (queryString this) of
        Inl e \<Rightarrow> Inl e
      | Inr filters \<Rightarrow>
          (let this1 = this\<lparr>query := Query_find (Filters filters) (query this)\<rparr> in
           if truthy_opt (get_prop (queryString this) ''page'') then
             (case countDocuments (Filters filters) of
                Inl e \<Rightarrow> Inl e
              | Inr n \<Rightarrow> Inr (this1\<lparr>total := Some n\<rparr>, [Filters filters]))
           else Inr (this1, [])))"

subsection \<open>The pipeline, value by value\<close>

text \<open>
  What the pipeline makes of one string, key or value: its escaped form is rewritten
  and read back; \<open>None\<close> when the rewriting has broken an escape sequence.
\<close>

definition rw_string :: "string \<Rightarrow> string option" where
  "rw_string s =
     (case lex_string (replace_ops (escape_body s) @ [dquote]) of
        Inl e \<Rightarrow> None
      | Inr (s', rest) \<Rightarrow> Some s')"

text \<open>A character that \<^verbatim>\<open>JSON.stringify\<close> writes as it is.\<close>

definition plain :: "char \<Rightarrow> bool" where
  "plain c = (c \<noteq> dquote \<and> c \<noteq> backslash \<and> \<not> (of_char c :: nat) < 0x20)"

text \<open>The same on every key and every string of a value.\<close>

fun rewrite_strings :: "json \<Rightarrow> json option" where
  "rewrite_strings JNull = Some JNull"
| "rewrite_strings (JBool b) = Some (JBool b)"
| "rewrite_strings (JNum n) = Some (JNum n)"
| "rewrite_strings (JStr s) = map_option JStr (rw_string s)"
| "rewrite_strings (JArr xs) = map_option JArr (those (map rewrite_strings xs))"
| "rewrite_strings (JObj kvs) =
     map_option JObj
       (those (map (\<lambda>(k, v). case rw_string k of
                                 None \<Rightarrow> None
                               | Some k' \<Rightarrow> map_option (Pair k') (rewrite_strings v)) kvs))"

text \<open>
  An object as \<^verbatim>\<open>JSON.parse\<close> builds it from its text: a repeated key keeps its first
  place and takes the last value.
\<close>

fun JSON_normal :: "json \<Rightarrow> json" where
  "JSON_normal (JArr xs) = JArr (map JSON_normal xs)"
| "JSON_normal (JObj kvs) =
     JObj (foldl (\<lambda>ms (k, v). AList.update k (JSON_normal v) ms) [] kvs)"
| "JSON_normal v = v"

definition rewrite_json :: "json \<Rightarrow> json option" where
  "rewrite_json v = map_option JSON_normal (rewrite_strings v)"

text \<open>A function applied to every key and every string of a value.\<close>

fun map_strings :: "(string \<Rightarrow> string) \<Rightarrow> json \<Rightarrow> json" where
  "map_strings f (JStr s) = JStr (f s)"
| "map_strings f (JArr xs) = JArr (map (map_strings f) xs)"
| "map_strings f (JObj kvs) = JObj (map (\<lambda>(k, v). (f k, map_strings f v)) kvs)"
| "map_strings f v = v"

text \<open>Every key and every string of the value is made of such characters.\<close>

fun plain_json :: "json \<Rightarrow> bool" where
  "plain_json (JStr s) = list_all plain s"
| "plain_json (JArr xs) = list_all plain_json xs"
| "plain_json (JObj kvs) = list_all (\<lambda>(k, v). list_all plain k \<and> plain_json v) kvs"
| "plain_json v = True"

text \<open>The entries of an object.\<close>

definition entries :: "json \<Rightarrow> (string \<times> json) list" where
  "entries v = (case v of JObj kvs \<Rightarrow> kvs | _ \<Rightarrow> [])"

subsection \<open>The rewriting is one to one\<close>

text \<open>
  The rewriting undone: a dollar sign in front of an operator word is taken away. It
  serves to show that the rewriting never maps two strings to one.
\<close>

function strip_ops :: "string \<Rightarrow> string" where
  "strip_ops [] = []"
| "strip_ops (c # cs) =
     (if c = CHR ''$'' \<and> takeWhile is_word cs \<in> set operators
      then takeWhile is_word cs @ strip_ops (dropWhile is_word cs)
      else if is_word c then c # takeWhile is_word cs @ strip_ops (dropWhile is_word cs)
      else c # strip_ops cs)"
  by pat_completeness auto
termination
  by (relation "measure length") (auto simp: less_Suc_eq_le length_dropWhile_le)

text \<open>Every object of the value has its keys once, as a JavaScript object has.\<close>

fun distinct_keys :: "json \<Rightarrow> bool" where
  "distinct_keys (JArr xs) = list_all distinct_keys xs"
| "distinct_keys (JObj kvs) =
     (distinct (map fst kvs) \<and> list_all (\<lambda>(k, v). distinct_keys v) kvs)"
| "distinct_keys v = True"

subsection \<open>Notions of the proofs\<close>

text \<open>
  \<open>ins p t t'\<close>: \<open>t'\<close> is \<open>t\<close> with dollar signs put in front of some words; \<open>p\<close> tells
  whether the character before is a word character. \<open>toks\<close> is the token sequence of a
  value, \<open>delim\<close> what may follow a value in a serialization.
\<close>

inductive ins :: "bool \<Rightarrow> string \<Rightarrow> string \<Rightarrow> bool" where
  ins_Nil: "ins p [] []"
| ins_keep: "ins (is_word c) t t' \<Longrightarrow> ins p (c # t) (c # t')"
| ins_dollar: "\<not> p \<Longrightarrow> is_word c \<Longrightarrow> ins True t t' \<Longrightarrow> ins p (c # t) (CHR ''$'' # c # t')"

inductive_cases ins_NilE: "ins p [] B"

inductive_cases ins_ConsE: "ins p (c # t) B"

definition lexed :: "string option \<Rightarrow> string \<Rightarrow> error + (string \<times> string)" where
  "lexed res r = (case res of None \<Rightarrow> Inl SyntaxError | Some s' \<Rightarrow> Inr (s', r))"

abbreviation RW :: "json \<Rightarrow> string" where
  "RW v \<equiv> rewrite_words (JSON_stringify v)"

fun toks :: "json \<Rightarrow> token list" where
  "toks JNull = [TNull]"
| "toks (JBool b) = [if b then TTrue else TFalse]"
| "toks (JNum n) = [TNum n]"
| "toks (JStr s) = [TStr s]"
| "toks (JArr xs) = TLBracket # join [TComma] (map toks xs) @ [TRBracket]"
| "toks (JObj kvs) =
     TLBrace # join [TComma] (map (\<lambda>(k, v). TStr k # TColon # toks v) kvs) @ [TRBrace]"

definition delim :: "string \<Rightarrow> bool" where
  "delim r = (r = [] \<or> hd r = CHR '','' \<or> hd r = CHR '']'' \<or> hd r = CHR ''}'')"

definition lexes :: "token list option \<Rightarrow> string \<Rightarrow> error + token list" where
  "lexes res r =
     (case res of
        None \<Rightarrow> Inl SyntaxError
      | Some ts \<Rightarrow> (case lex_all r of Inl e \<Rightarrow> Inl e | Inr ts' \<Rightarrow> Inr (ts @ ts')))"

definition app_opt :: "'a list option \<Rightarrow> 'a list option \<Rightarrow> 'a list option" where
  "app_opt a b = (case a of None \<Rightarrow> None | Some x \<Rightarrow> map_option ((@) x) b)"

definition rw_member :: "string \<times> json \<Rightarrow> (string \<times> json) option" where
  "rw_member kv =
     (case kv of (k, v) \<Rightarrow>
        (case rw_string k of
           None \<Rightarrow> None
         | Some k' \<Rightarrow> map_option (Pair k') (rewrite_strings v)))"

subsection \<open>Handles and updates the properties speak of\<close>

text \<open>The handle of \<^verbatim>\<open>Model.find()\<close>, before any call.\<close>

definition fresh_Query :: Query where
  "fresh_Query = \<lparr> conditions = [], sort_spec = None, select_spec = None,
                    skip_count = None, limit_count = None, populate_paths = [] \<rparr>"

definition add_populate_paths :: "string list \<Rightarrow> ApiFeatures \<Rightarrow> ApiFeatures" where
  "add_populate_paths fs this =
     this\<lparr>query := (query this)\<lparr>populate_paths := populate_paths (query this) @ fs\<rparr>\<rparr>"

definition add_condition :: "predicate \<Rightarrow> ApiFeatures \<Rightarrow> ApiFeatures" where
  "add_condition p this =
     this\<lparr>query := (query this)\<lparr>conditions := conditions (query this) @ [p]\<rparr>\<rparr>"

section \<open>Properties of the numbers\<close>

lemma pow2_less_iff: "pow2 a < pow2 b \<longleftrightarrow> a < b"
proof
  assume l: "pow2 a < pow2 b"
  show "a < b"
  proof (rule ccontr)
    assume "\<not> a < b"
    then have "b \<le> a" by simp
    then have "(2::rat) powi b \<le> 2 powi a" by (rule power_int_increasing) simp
    then show False using l by (simp add: pow2_powi)
  qed
next
  assume "a < b"
  then have "(2::rat) powi a < 2 powi b" by (rule power_int_strict_increasing) simp
  then show "pow2 a < pow2 b" by (simp add: pow2_powi)
qed

lemma pow2_le_iff: "pow2 a \<le> pow2 b \<longleftrightarrow> a \<le> b"
  using pow2_less_iff [of b a] by (simp only: not_less [symmetric])

lemma pow2_0 [simp]: "pow2 0 = 1"
  by (simp add: pow2_def)

lemma pow2_nat: "0 \<le> e \<Longrightarrow> pow2 e = of_int (2 ^ nat e)"
  by (simp add: pow2_def)

lemma bit_length_bounds:
  "0 < n \<Longrightarrow> 0 < bit_length n \<and> 2 ^ nat (bit_length n - 1) \<le> n \<and> n < 2 ^ nat (bit_length n)"
proof (induction n rule: bit_length.induct)
  case (1 n)
  show ?case
  proof (cases "n = 1")
    case True
    then show ?thesis by (simp add: bit_length.simps)
  next
    case False
    then have h: "0 < n div 2" using 1(2) by simp
    let ?k = "bit_length (n div 2)"
    have ih: "0 < ?k \<and> 2 ^ nat (?k - 1) \<le> n div 2 \<and> n div 2 < 2 ^ nat ?k"
      using 1(1) 1(2) h by simp
    have e: "bit_length n = 1 + ?k" using 1(2) by (subst bit_length.simps) simp
    have kp: "0 < ?k" using ih by simp
    then have n: "nat ?k = Suc (nat (?k - 1))" by arith
    have "2 ^ nat ?k \<le> n"
    proof -
      have "(2::int) * 2 ^ nat (?k - 1) \<le> 2 * (n div 2)" using ih by simp
      also have "\<dots> \<le> n" by simp
      finally show ?thesis by (subst n) simp
    qed
    moreover have "n < 2 ^ nat (1 + ?k)"
    proof -
      have "n div 2 + 1 \<le> 2 ^ nat ?k" using ih by simp
      then have "2 * (n div 2) + 2 \<le> 2 * 2 ^ nat ?k" by simp
      moreover have "n < 2 * (n div 2) + 2" by presburger
      moreover have "nat (1 + ?k) = Suc (nat ?k)" using kp by arith
      ultimately show ?thesis by simp
    qed
    ultimately show ?thesis using ih by (simp add: e)
  qed
qed

lemma bit_length_pow2:
  assumes "0 < n"
  shows "pow2 (bit_length n - 1) \<le> of_int n" and "of_int n < pow2 (bit_length n)"
proof -
  have b: "0 < bit_length n" "2 ^ nat (bit_length n - 1) \<le> n" "n < 2 ^ nat (bit_length n)"
    using bit_length_bounds [OF assms] by simp_all
  have "(of_int (2 ^ nat (bit_length n - 1)) :: rat) \<le> of_int n"
    using b(2) by (simp only: of_int_le_iff)
  then show "pow2 (bit_length n - 1) \<le> of_int n" using b(1) by (simp add: pow2_nat)
  have "(of_int n :: rat) < of_int (2 ^ nat (bit_length n))"
    using b(3) by (simp only: of_int_less_iff)
  then show "of_int n < pow2 (bit_length n)" using b(1) by (simp add: pow2_nat)
qed

text \<open>The binade is the one the number lies in.\<close>

lemma binade_bounds:
  assumes "0 < x"
  shows "pow2 (binade x) \<le> x" and "x < pow2 (binade x + 1)"
proof -
  have "pow2 (binade x) \<le> x \<and> x < pow2 (binade x + 1)"
  proof (cases "1 \<le> x")
    case True
    then have f: "0 < \<lfloor>x\<rfloor>" by simp
    have "pow2 (bit_length \<lfloor>x\<rfloor> - 1) \<le> of_int \<lfloor>x\<rfloor>" using bit_length_pow2 [OF f] by simp
    also have "\<dots> \<le> x" by simp
    finally have lo: "pow2 (bit_length \<lfloor>x\<rfloor> - 1) \<le> x" .
    have "(of_int \<lfloor>x\<rfloor> :: rat) < pow2 (bit_length \<lfloor>x\<rfloor>)" using bit_length_pow2 [OF f] by simp
    then have "(of_int \<lfloor>x\<rfloor> :: rat) < of_int (2 ^ nat (bit_length \<lfloor>x\<rfloor>))"
      using bit_length_bounds [OF f] by (simp add: pow2_nat)
    then have "\<lfloor>x\<rfloor> < 2 ^ nat (bit_length \<lfloor>x\<rfloor>)" by (simp only: of_int_less_iff)
    then have "x < of_int (2 ^ nat (bit_length \<lfloor>x\<rfloor>))" by (simp add: floor_less_iff)
    then have "x < pow2 (bit_length \<lfloor>x\<rfloor>)" using bit_length_bounds [OF f] by (simp add: pow2_nat)
    then show ?thesis using lo True by (simp add: binade_def)
  next
    case False
    let ?y = "1 / x"
    let ?k = "bit_length (\<lceil>?y\<rceil> - 1)"
    have y: "1 < ?y" using False assms by simp
    then have c: "0 < \<lceil>?y\<rceil> - 1" by (simp add: less_ceiling_iff)
    have "pow2 (?k - 1) \<le> of_int (\<lceil>?y\<rceil> - 1)" using bit_length_pow2 [OF c] by simp
    also have "(of_int (\<lceil>?y\<rceil> - 1) :: rat) < ?y" using ceiling_correct [of ?y] by simp
    finally have lo: "pow2 (?k - 1) < ?y" .
    have "(of_int (\<lceil>?y\<rceil> - 1) :: rat) < of_int (2 ^ nat ?k)"
      using bit_length_pow2 [OF c] bit_length_bounds [OF c] by (simp add: pow2_nat)
    then have "\<lceil>?y\<rceil> - 1 < 2 ^ nat ?k" by (simp only: of_int_less_iff)
    then have "\<lceil>?y\<rceil> \<le> 2 ^ nat ?k" by simp
    then have "?y \<le> of_int (2 ^ nat ?k)" by (simp only: ceiling_le_iff)
    then have hi: "?y \<le> pow2 ?k" using bit_length_bounds [OF c] by (simp add: pow2_nat)
    have "pow2 (- ?k) \<le> x"
      using hi assms by (simp add: pow2_minus field_simps)
    moreover have "x < pow2 (- ?k + 1)"
    proof -
      have a: "pow2 (- ?k + 1) * pow2 (?k - 1) = 1"
        using pow2_add [of "- ?k + 1" "?k - 1"] by simp
      have "x * pow2 (?k - 1) < 1" using lo assms by (simp add: field_simps)
      then have "x * pow2 (?k - 1) < pow2 (- ?k + 1) * pow2 (?k - 1)" by (simp only: a)
      then show ?thesis by (simp only: mult_less_cancel_right_pos [OF pow2_pos])
    qed
    ultimately show ?thesis using False by (simp add: binade_def)
  qed
  then show "pow2 (binade x) \<le> x" and "x < pow2 (binade x + 1)" by simp_all
qed

lemma round_half_even_near: "\<bar>of_int (round_half_even q) - q\<bar> \<le> 1 / 2"
proof -
  have "of_int \<lfloor>q\<rfloor> \<le> q" "q < of_int \<lfloor>q\<rfloor> + 1" by linarith+
  then show ?thesis
    by (auto simp: round_half_even_def Let_def abs_le_iff)
qed

lemma round_half_even_int [simp]: "round_half_even (of_int n) = n"
  by (simp add: round_half_even_def)

lemma halve_less: "x * 2 < 2 * y \<Longrightarrow> x < (y::rat)"
  by simp

lemma round_mag_grid:
  assumes "0 < x" and "- 1022 \<le> binade x"
  shows "round_mag x =
          (let r = of_int (round_half_even (x / pow2 (binade x - 52))) * pow2 (binade x - 52)
           in if r < pow2 1024 then Some r else None)"
proof -
  have "max (binade x - 52) (- 1074) = binade x - 52" using assms(2) by simp
  then show ?thesis by (simp add: round_mag_def Let_def)
qed

text \<open>An integer of at most 53 binary digits is a double.\<close>

lemma round_mag_int:
  assumes "0 < n" and "n \<le> 2 ^ 53"
  shows "round_mag (of_int n) = Some (of_int n)"
proof -
  let ?x = "of_int n :: rat"
  let ?e = "binade ?x"
  have x: "0 < ?x" using assms(1) by simp
  have lo: "pow2 ?e \<le> ?x" and hi: "?x < pow2 (?e + 1)" using binade_bounds [OF x] by simp_all
  have "pow2 0 \<le> ?x" using assms(1) by simp
  then have "pow2 0 < pow2 (?e + 1)" using hi by (rule le_less_trans)
  then have e0: "0 \<le> ?e" by (simp only: pow2_less_iff)
  have n53: "?x \<le> pow2 53"
  proof -
    have "(of_int n :: rat) \<le> of_int (2 ^ 53)" using assms(2) by (simp only: of_int_le_iff)
    then show ?thesis by (simp add: pow2_nat)
  qed
  have "pow2 ?e \<le> pow2 53" using lo n53 by (rule order_trans)
  then have e53: "?e \<le> 53" by (simp only: pow2_le_iff)
  have "\<exists>k. ?x / pow2 (?e - 52) = of_int k"
  proof (cases "?e = 53")
    case True
    then have "pow2 53 \<le> ?x" using lo by simp
    then have "?x = pow2 53" using n53 by simp
    then have "?x / pow2 (?e - 52) = of_int (2 ^ 52)" using True by (simp add: pow2_nat)
    then show ?thesis by blast
  next
    case False
    then have le: "0 \<le> 52 - ?e" using e53 by simp
    have "?x / pow2 (?e - 52) = ?x * pow2 (52 - ?e)"
      using pow2_minus [of "?e - 52"] by simp
    also have "\<dots> = of_int (n * 2 ^ nat (52 - ?e))" using le by (simp add: pow2_nat)
    finally show ?thesis by blast
  qed
  then obtain k where k: "?x / pow2 (?e - 52) = of_int k" by blast
  then have bk: "of_int k * pow2 (?e - 52) = ?x" by (simp add: field_simps)
  have "?x < pow2 1024"
  proof -
    have "pow2 53 < pow2 1024" by (simp add: pow2_less_iff)
    then show ?thesis using n53 by (rule le_less_trans [rotated])
  qed
  then show ?thesis
    using e0 by (simp add: round_mag_grid [OF x] Let_def k bk)
qed

lemma to_double_int:
  assumes "n \<noteq> 0" and "\<bar>n\<bar> \<le> 2 ^ 53"
  shows "to_double (of_int n) = js_int n"
proof (cases "0 < n")
  case True
  then show ?thesis
    using round_mag_int [of n] assms by (simp add: to_double_def)
next
  case False
  then have n: "n < 0" using assms(1) by simp
  then have "round_mag (of_int (- n)) = Some (of_int (- n))"
    using round_mag_int [of "- n"] assms(2) by simp
  moreover have "\<bar>of_int n :: rat\<bar> = of_int (- n)" using n by simp
  ultimately show ?thesis using n by (simp add: to_double_def)
qed

text \<open>
  The quotient of two positive integers below \<open>2^53\<close>, rounded to a double, has the
  ceiling of the exact quotient.
\<close>

lemma round_mag_quotient:
  assumes t: "0 < t" "t < 2 ^ 53" and l: "0 < l" "l < 2 ^ 53"
  shows "\<exists>r. round_mag (of_int t / of_int l) = Some r \<and> 0 < r \<and>
             \<lceil>r\<rceil> = \<lceil>(of_int t :: rat) / of_int l\<rceil>"
proof (cases "l dvd t")
  case True
  then obtain k where k: "t = l * k" by (rule dvdE)
  then have kp: "0 < k" using t(1) l(1) by (simp add: zero_less_mult_iff)
  have "k \<le> l * k" using l(1) kp by simp
  then have k53: "k \<le> 2 ^ 53" using k t(2) by simp
  have "(of_int t :: rat) / of_int l = of_int k" using k l(1) by simp
  then show ?thesis using round_mag_int [OF kp k53] kp by simp
next
  case False
  define x where "x = (of_int t :: rat) / of_int l"
  define e where "e = binade x"
  define c where "c = \<lceil>x\<rceil>"
  define S where "S = (2::int) ^ nat (52 - e)"
  define m where "m = round_half_even (x * of_int S)"
  define r where "r = (of_int m :: rat) / of_int S"
  have xl: "x * of_int l = of_int t" using l(1) by (simp add: x_def)
  have lpos: "(0::rat) < of_int l" using l(1) by simp
  have x: "0 < x" using t(1) l(1) by (simp add: x_def)
  have lo: "pow2 e \<le> x" and hi: "x < pow2 (e + 1)"
    using binade_bounds [OF x] by (simp_all add: e_def)
  have lr: "(of_int l :: rat) < pow2 53"
  proof -
    have "(of_int l :: rat) < of_int (2 ^ 53)" using l(2) by (simp only: of_int_less_iff)
    then show ?thesis by (simp add: pow2_nat)
  qed
  have tr: "(of_int t :: rat) < pow2 53"
  proof -
    have "(of_int t :: rat) < of_int (2 ^ 53)" using t(2) by (simp only: of_int_less_iff)
    then show ?thesis by (simp add: pow2_nat)
  qed
  have l2: "2 \<le> l"
  proof (rule ccontr)
    assume "\<not> 2 \<le> l"
    then have "l = 1" using l(1) by simp
    then show False using False by simp
  qed
  txt \<open>The binade is a normal one.\<close>
  have "pow2 (- 53) * of_int l < 1"
  proof -
    have a: "pow2 (- 53) * pow2 53 = 1" using pow2_add [of "- 53" 53] by simp
    have "pow2 (- 53) * of_int l < pow2 (- 53) * pow2 53"
      using lr by (simp only: mult_less_cancel_left_pos [OF pow2_pos])
    then show ?thesis by (simp only: a)
  qed
  also have "(1::rat) \<le> of_int t" using t(1) by simp
  also have "(of_int t :: rat) = x * of_int l" by (simp only: xl)
  finally have "pow2 (- 53) < x" by (simp only: mult_less_cancel_right_pos [OF lpos])
  then have "pow2 (- 53) < pow2 (e + 1)" using hi by (rule less_trans)
  then have elo: "- 54 < e" by (simp only: pow2_less_iff)
  txt \<open>The quotient is below \<open>2^52\<close>, so the grid is finer than the integers.\<close>
  have "x * 2 \<le> x * of_int l"
  proof -
    have "(2::rat) \<le> of_int l" using l2 by simp
    then show ?thesis using x by (simp only: mult_le_cancel_left_pos)
  qed
  then have "x * 2 < pow2 53" using tr by (simp only: xl)
  moreover have "pow2 53 = 2 * pow2 52" using pow2_add [of 1 52] by (simp add: pow2_def)
  ultimately have "x * 2 < 2 * pow2 52" by (simp only:)
  then have x52: "x < pow2 52" by (rule halve_less)
  have "pow2 e < pow2 52" using lo x52 by (rule le_less_trans)
  then have ehi: "e < 52" by (simp only: pow2_less_iff)
  have Sp: "pow2 (52 - e) = of_int S" using ehi by (simp add: pow2_nat S_def)
  have S0: "0 < S" by (simp add: S_def)
  have Spos: "(0::rat) < of_int S" using S0 by simp
  have grid: "pow2 (e - 52) = 1 / of_int S" using pow2_minus [of "52 - e"] Sp by simp
  have near: "\<bar>of_int m - x * of_int S\<bar> \<le> 1 / 2"
    unfolding m_def by (rule round_half_even_near)
  have near1: "of_int m \<le> x * of_int S + 1 / 2"
    using near unfolding abs_le_iff by linarith
  have near2: "x * of_int S - 1 / 2 \<le> of_int m"
    using near unfolding abs_le_iff by linarith
  txt \<open>The quotient is no integer.\<close>
  have nonint: "x \<noteq> of_int k" for k
  proof
    assume "x = of_int k"
    then have "(of_int t :: rat) = of_int (k * l)" using xl by simp
    then have "t = k * l" by (simp only: of_int_eq_iff)
    then show False using False by simp
  qed
  have c1: "of_int (c - 1) < x" using ceiling_correct [of x] by (simp add: c_def)
  have c2: "x < of_int c"
  proof (rule ccontr)
    assume "\<not> x < of_int c"
    then have "x = of_int c" using le_of_int_ceiling [of x] by (simp add: c_def)
    then show False using nonint by blast
  qed
  txt \<open>Above: the rounded multiple is at most the ceiling.\<close>
  have "x * of_int S < of_int c * of_int S"
    using c2 by (simp only: mult_less_cancel_right_pos [OF Spos])
  then have "of_int m < of_int c * (of_int S :: rat) + 1 / 2" using near1 by linarith
  then have "(of_int m :: rat) < of_int (c * S + 1)" by simp
  then have "m < c * S + 1" by (simp only: of_int_less_iff)
  then have mhi: "m \<le> c * S" by simp
  txt \<open>Below: the quotient is more than half a grid step above the integer below it.\<close>
  have "of_int (c - 1) * of_int l < x * of_int l"
    using c1 by (simp only: mult_less_cancel_right_pos [OF lpos])
  then have "(of_int ((c - 1) * l) :: rat) < of_int t" by (simp add: xl)
  then have "(c - 1) * l < t" by (simp only: of_int_less_iff)
  then have "(c - 1) * l + 1 \<le> t" by simp
  then have "(of_int ((c - 1) * l + 1) :: rat) \<le> of_int t" by (simp only: of_int_le_iff)
  then have step: "of_int (c - 1) * of_int l + 1 \<le> x * of_int l" by (simp add: xl)
  have "pow2 e * of_int l \<le> x * of_int l"
    using lo by (simp only: mult_le_cancel_right_pos [OF lpos])
  then have "pow2 e * of_int l < pow2 53" using tr by (simp only: xl)
  moreover have "pow2 53 = pow2 e * (2 * of_int S)"
    using pow2_add [of e "53 - e"] pow2_add [of 1 "52 - e"] Sp by (simp add: pow2_def)
  ultimately have "pow2 e * of_int l < pow2 e * (2 * of_int S)" by (simp only:)
  then have lS: "(of_int l :: rat) < 2 * of_int S"
    by (simp only: mult_less_cancel_left_pos [OF pow2_pos])
  have "(of_int ((c - 1) * S) + 1 / 2) * of_int l < x * of_int S * of_int l"
  proof -
    have "(of_int ((c - 1) * S) + 1 / 2) * of_int l
          = of_int (c - 1) * of_int l * of_int S + of_int l / (2::rat)"
      by (simp add: algebra_simps)
    also have "\<dots> < of_int (c - 1) * of_int l * of_int S + of_int S"
      using lS by simp
    also have "\<dots> = (of_int (c - 1) * of_int l + 1) * (of_int S :: rat)"
      by (simp add: algebra_simps)
    also have "\<dots> \<le> x * of_int l * of_int S"
      using step by (simp only: mult_le_cancel_right_pos [OF Spos])
    finally show ?thesis by (simp only: mult.assoc mult.commute [of "of_int l"])
  qed
  then have "of_int ((c - 1) * S) + 1 / 2 < x * of_int S"
    by (simp only: mult_less_cancel_right_pos [OF lpos])
  then have "(of_int ((c - 1) * S) :: rat) < of_int m" using near2 by linarith
  then have mlo: "(c - 1) * S < m" by (simp only: of_int_less_iff)
  txt \<open>So the rounded value lies in the unit interval that ends at the ceiling.\<close>
  have rhi: "r \<le> of_int c"
  proof -
    have "(of_int m :: rat) \<le> of_int (c * S)" using mhi by (simp only: of_int_le_iff)
    then show ?thesis using Spos by (simp add: r_def field_simps)
  qed
  have rlo: "of_int (c - 1) < r"
  proof -
    have "(of_int ((c - 1) * S) :: rat) < of_int m" using mlo by (simp only: of_int_less_iff)
    then show ?thesis using Spos by (simp add: r_def field_simps)
  qed
  have ceil: "\<lceil>r\<rceil> = c"
    using rhi rlo by (simp add: ceiling_eq_iff)
  have cpos: "0 < c" using x by (simp add: c_def)
  have rpos: "0 < r"
  proof -
    have "(0::rat) \<le> of_int (c - 1)" using cpos by simp
    then show ?thesis using rlo by (rule le_less_trans)
  qed
  have "r < pow2 1024"
  proof -
    have "of_int c < x + 1" using ceiling_correct [of x] by (simp add: c_def)
    then have "r < pow2 52 + 1" using x52 rhi by linarith
    moreover have "pow2 52 + 1 < pow2 1024" by (simp add: pow2_def)
    ultimately show ?thesis by (rule less_trans)
  qed
  moreover have "- 1022 \<le> e" using elo by simp
  moreover have "of_int (round_half_even (x / pow2 (e - 52))) * pow2 (e - 52) = r"
    by (simp add: grid r_def m_def)
  ultimately have "round_mag x = Some r"
    using round_mag_grid [OF x] by (simp add: Let_def e_def [symmetric])
  then show ?thesis using rpos ceil by (simp add: x_def c_def)
qed

lemma Math_ceil_js_div:
  assumes "0 \<le> t" and "t < 2 ^ 53" and "0 < l" and "l < 2 ^ 53"
  shows "Math_ceil (js_div (js_int t) (js_int l)) = js_int \<lceil>(of_int t :: rat) / of_int l\<rceil>"
proof (cases "t = 0")
  case True
  then show ?thesis using assms(3) by (simp add: js_div_def signed_zero_def)
next
  case False
  then have t: "0 < t" using assms(1) by simp
  obtain r where r: "round_mag (of_int t / of_int l) = Some r" "0 < r"
      "\<lceil>r\<rceil> = \<lceil>(of_int t :: rat) / of_int l\<rceil>"
    using round_mag_quotient [OF t assms(2) assms(3) assms(4)] by blast
  have x: "(0::rat) < of_int t / of_int l" using t assms(3) by simp
  then have "\<bar>(of_int t :: rat) / of_int l\<bar> = of_int t / of_int l" by (simp only: abs_of_pos)
  then have "to_double (of_int t / of_int l) = Num r"
    using r x by (simp add: to_double_def)
  then show ?thesis using r t assms(3) by (simp add: js_div_def)
qed

lemma js_lt_int [simp]: "js_lt (js_int a) (js_int b) = (a < b)"
  by simp

lemma js_add_int:
  assumes "a + b \<noteq> 0" and "\<bar>a + b\<bar> \<le> 2 ^ 53"
  shows "js_add (js_int a) (js_int b) = js_int (a + b)"
proof -
  have e: "(of_int a :: rat) + of_int b = of_int (a + b)" by simp
  have "(of_int (a + b) :: rat) \<noteq> 0" using assms(1) by (simp only: of_int_eq_0_iff) simp
  then show ?thesis
    using to_double_int [OF assms] by (simp add: js_add_def e del: of_int_add)
qed

lemma js_sub_int:
  assumes "b \<noteq> 0" and "a - b \<noteq> 0" and "\<bar>a - b\<bar> \<le> 2 ^ 53"
  shows "js_sub (js_int a) (js_int b) = js_int (a - b)"
  using js_add_int [of a "- b"] assms by (simp add: js_sub_def)

lemma js_mul_int:
  assumes "a \<noteq> 0" and "b \<noteq> 0" and "\<bar>a * b\<bar> \<le> 2 ^ 53"
  shows "js_mul (js_int a) (js_int b) = js_int (a * b)"
proof -
  have "a * b \<noteq> 0" using assms by simp
  then show ?thesis
    using to_double_int [of "a * b"] assms by (simp add: js_mul_def)
qed

text \<open>A rational of \<open>2^1024\<close> or more overflows.\<close>

lemma to_double_overflow:
  assumes "pow2 1024 \<le> x"
  shows "to_double x = PosInf"
proof -
  define e where "e = binade x"
  define q where "q = x / pow2 (e - 52)"
  define m where "m = round_half_even q"
  have x: "0 < x" using pow2_pos [of 1024] assms by (rule less_le_trans)
  have lo: "pow2 e \<le> x" and hi: "x < pow2 (e + 1)"
    using binade_bounds [OF x] by (simp_all add: e_def)
  have "pow2 1024 < pow2 (e + 1)" using assms hi by (rule le_less_trans)
  then have e: "1024 \<le> e" by (simp add: pow2_less_iff)
  have split: "pow2 e = pow2 52 * pow2 (e - 52)" using pow2_add [of 52 "e - 52"] by simp
  have "pow2 52 * pow2 (e - 52) \<le> q * pow2 (e - 52)" using lo by (simp add: q_def split)
  then have q52: "pow2 52 \<le> q" by (simp only: mult_le_cancel_right_pos [OF pow2_pos])
  have "\<bar>of_int m - q\<bar> \<le> 1 / 2" unfolding m_def by (rule round_half_even_near)
  then have "q - 1 / 2 \<le> of_int m" unfolding abs_le_iff by linarith
  then have "pow2 52 - 1 < (of_int m :: rat)" using q52 by linarith
  then have "(of_int (2 ^ 52 - 1) :: rat) < of_int m" by (simp add: pow2_nat)
  then have "2 ^ 52 - 1 < m" by (simp only: of_int_less_iff)
  then have "2 ^ 52 \<le> m" by simp
  then have "(of_int (2 ^ 52) :: rat) \<le> of_int m" by (simp only: of_int_le_iff)
  then have "pow2 52 \<le> of_int m" by (simp add: pow2_nat)
  then have "pow2 52 * pow2 (e - 52) \<le> of_int m * pow2 (e - 52)"
    by (simp only: mult_le_cancel_right_pos [OF pow2_pos])
  then have "pow2 e \<le> of_int m * pow2 (e - 52)" by (simp only: split)
  moreover have "pow2 1024 \<le> pow2 e" using e by (simp add: pow2_le_iff)
  ultimately have "pow2 1024 \<le> of_int m * pow2 (e - 52)" by (rule order_trans [rotated])
  then have "\<not> of_int m * pow2 (e - 52) < pow2 1024" by (simp only: not_less)
  moreover have "- 1022 \<le> binade x" using e by (simp add: e_def)
  ultimately have "round_mag x = None"
    using round_mag_grid [OF x] by (simp add: Let_def m_def q_def e_def)
  moreover have "\<bar>x\<bar> = x" using x by simp
  ultimately show ?thesis using x by (simp add: to_double_def signed_inf_def)
qed

section \<open>Properties of the formatter\<close>

text \<open>
  C1, as the code has it. On a non-negative integer total, a positive integer limit and
  a positive integer page, each below \<open>2^53\<close>, the record holds the inputs, the page
  count is the ceiling of total over limit, there is a next page exactly when the page is
  below the page count and a previous one exactly when it is above 1, and the
  neighbouring page numbers are page plus or minus one, or null;
  \<^verbatim>\<open>getPagination(50, 10, 3)\<close> is the record of the specification.
\<close>

theorem getPagination_amended:
  assumes "0 \<le> t" and "t < 2 ^ 53" and "0 < l" and "l < 2 ^ 53" and "0 < p" and "p < 2 ^ 53"
  shows "getPagination (js_int t) (js_int l) (js_int p) =
           \<lparr> PaginationInfo.total = js_int t,
             pages = js_int \<lceil>(of_int t :: rat) / of_int l\<rceil>,
             currentPage = js_int p,
             limit = js_int l,
             hasNext = (p < \<lceil>(of_int t :: rat) / of_int l\<rceil>),
             hasPrevious = (1 < p),
             nextPage = (if p < \<lceil>(of_int t :: rat) / of_int l\<rceil> then Some (js_int (p + 1)) else None),
             previousPage = (if 1 < p then Some (js_int (p - 1)) else None) \<rparr>"
proof -
  have pg: "Math_ceil (js_div (js_int t) (js_int l)) = js_int \<lceil>(of_int t :: rat) / of_int l\<rceil>"
    using assms(1-4) by (rule Math_ceil_js_div)
  have one: "js_gt (js_int p) (Num 1) = (1 < p)"
    unfolding js_gt_def using js_lt_int [of 1 p] by simp
  have nx: "js_add (js_int p) (Num 1) = js_int (p + 1)"
    using js_add_int [of p 1] assms(5,6) by simp
  have pv: "js_sub (js_int p) (Num 1) = js_int (p - 1)" if "1 < p"
    using js_sub_int [of 1 p] assms(6) that by simp
  show ?thesis
    unfolding getPagination_def Let_def pg by (simp add: one nx pv)
qed

theorem getPagination_amended_witness:
  "getPagination (Num 50) (Num 10) (Num 3) =
     \<lparr> PaginationInfo.total = Num 50, pages = Num 5, currentPage = Num 3, limit = Num 10,
       hasNext = True, hasPrevious = True, nextPage = Some (Num 4),
       previousPage = Some (Num 2) \<rparr>"
proof -
  have c: "\<lceil>(of_int 50 :: rat) / of_int 10\<rceil> = 5" by simp
  show ?thesis
    using getPagination_amended [of 50 10 3] unfolding c by simp
qed

text \<open>
  C1 as stated fails on a total of \<open>2^54\<close> with a limit of 3: the quotient
  6004799503160661.33 is rounded to the double 6004799503160661 before the ceiling is
  taken, and the page count is one less than the ceiling of total over limit.
\<close>

theorem getPagination_large_total_counterexample:
  "pages (getPagination (js_int 18014398509481984) (js_int 3) (js_int 1)) =
     js_int 6004799503160661 \<and>
   \<lceil>(of_int 18014398509481984 :: rat) / of_int 3\<rceil> = 6004799503160662 \<and>
   pages (getPagination (js_int 18014398509481984) (js_int 3) (js_int 1)) \<noteq>
     js_int \<lceil>(of_int 18014398509481984 :: rat) / of_int 3\<rceil>"
  by code_simp

text \<open>
  C8. The function has no check of the limit: with a limit of zero it returns a record
  all the same, and the page count of that record is not a finite number. It is NaN
  when the total is a zero or NaN, and otherwise the infinity whose sign is that of the
  total, reversed when the limit is the negative zero. A negative limit is not checked
  either: a total of 50 with a limit of -10 gives a page count of -5.
\<close>

theorem getPagination_zero_limit:
  "\<not> is_finite (pages (getPagination t (Num 0) p)) \<and>
   \<not> is_finite (pages (getPagination t NegZero p)) \<and>
   pages (getPagination t (Num 0) p) =
     (if t = NaN \<or> is_zero t then NaN else if sign_bit t then NegInf else PosInf) \<and>
   pages (getPagination t NegZero p) =
     (if t = NaN \<or> is_zero t then NaN else if sign_bit t then PosInf else NegInf) \<and>
   pages (getPagination (Num 50) (Num (- 10)) (Num 1)) = Num (- 5)"
proof -
  have a: "pages (getPagination t (Num 0) p) =
     (if t = NaN \<or> is_zero t then NaN else if sign_bit t then NegInf else PosInf)"
    by (cases t) (simp_all add: getPagination_def Let_def js_div_def signed_inf_def)
  have b: "pages (getPagination t NegZero p) =
     (if t = NaN \<or> is_zero t then NaN else if sign_bit t then PosInf else NegInf)"
    by (cases t) (simp_all add: getPagination_def Let_def js_div_def signed_inf_def)
  have c: "pages (getPagination (Num 50) (Num (- 10)) (Num 1)) = Num (- 5)"
    by code_simp
  have "\<not> is_finite (pages (getPagination t (Num 0) p))"
    unfolding a by (simp add: is_finite_def)
  moreover have "\<not> is_finite (pages (getPagination t NegZero p))"
    unfolding b by (simp add: is_finite_def)
  ultimately show ?thesis using a b c by blast
qed

theorem getPagination_zero_limit_witness:
  "pages (getPagination (Num 50) (Num 0) (Num 1)) = PosInf \<and>
   pages (getPagination (Num 50) NegZero (Num 1)) = NegInf \<and>
   pages (getPagination (Num 0) (Num 0) (Num 1)) = NaN"
proof -
  have "pages (getPagination (Num 50) (Num 0) (Num 1)) = PosInf"
    using getPagination_zero_limit [of "Num 50" "Num 1"] by simp
  moreover have "pages (getPagination (Num 50) NegZero (Num 1)) = NegInf"
    using getPagination_zero_limit [of "Num 50" "Num 1"] by simp
  moreover have "pages (getPagination (Num 0) (Num 0) (Num 1)) = NaN"
    using getPagination_zero_limit [of "Num 0" "Num 1"] by simp
  ultimately show ?thesis by simp
qed

section \<open>Decimal numerals and \<^verbatim>\<open>parseInt\<close>\<close>

lemma digit_char_simps: "d < 10 \<Longrightarrow> is_digit (digit_char d) \<and> digit_val (digit_char d) = int d"
proof -
  assume "d < 10"
  then have "d = 0 \<or> d = 1 \<or> d = 2 \<or> d = 3 \<or> d = 4 \<or> d = 5 \<or> d = 6 \<or> d = 7 \<or> d = 8 \<or> d = 9"
    by arith
  then show ?thesis
    by (elim disjE) (simp_all add: digit_char_def is_digit_def digit_val_def)
qed

lemma digits_all_digit: "\<forall>c \<in> set (digits n). is_digit c"
proof (induction n rule: digits.induct)
  case (1 n)
  show ?case
  proof (cases "n < 10")
    case True
    then show ?thesis by (subst digits.simps) (simp add: digit_char_simps)
  next
    case False
    then have "\<forall>c \<in> set (digits (n div 10)). is_digit c" using 1 by simp
    moreover have "is_digit (digit_char (n mod 10))" by (simp add: digit_char_simps)
    ultimately show ?thesis using False by (subst digits.simps) simp
  qed
qed

lemma digits_val_snoc: "digits_val (ds @ [c]) = 10 * digits_val ds + digit_val c"
  by (simp add: digits_val_def)

lemma digits_val_digits: "digits_val (digits n) = int n"
proof (induction n rule: digits.induct)
  case (1 n)
  show ?case
  proof (cases "n < 10")
    case True
    then show ?thesis by (subst digits.simps) (simp add: digit_char_simps digits_val_def)
  next
    case False
    then have "digits_val (digits (n div 10)) = int (n div 10)" using 1 by simp
    moreover have "digit_val (digit_char (n mod 10)) = int (n mod 10)" by (simp add: digit_char_simps)
    moreover have "10 * int (n div 10) + int (n mod 10) = int n" by presburger
    ultimately show ?thesis using False
      by (subst digits.simps) (simp add: digits_val_snoc)
  qed
qed

lemma digits_nonempty: "digits n \<noteq> []"
  by (subst digits.simps) simp

lemma is_digit_not_space: "is_digit c \<Longrightarrow> \<not> is_js_space c \<and> c \<noteq> CHR ''+'' \<and> c \<noteq> CHR ''-''"
  by (auto simp: is_digit_def is_js_space_def Let_def)

lemma parseInt_all_digits:
  assumes "ds \<noteq> []" and "\<forall>c \<in> set ds. is_digit c"
  shows "parseInt ds =
           (if digits_val ds = 0 then Num 0 else to_double (of_int (digits_val ds)))"
proof -
  obtain c cs where d: "ds = c # cs" using assms(1) by (cases ds) auto
  have c: "is_digit c" using assms(2) d by simp
  have dw: "dropWhile is_js_space ds = ds" using is_digit_not_space [OF c] d by simp
  have tw: "takeWhile is_digit ds = ds" using assms(2) by (simp add: takeWhile_eq_all_conv)
  have hd: "hd ds \<noteq> CHR ''+'' \<and> hd ds \<noteq> CHR ''-''" using is_digit_not_space [OF c] d by simp
  show ?thesis
    unfolding parseInt_def Let_def dw using hd assms(1) by (simp add: tw signed_zero_def)
qed

lemma parseInt_minus_digits:
  assumes "ds \<noteq> []" and "\<forall>c \<in> set ds. is_digit c"
  shows "parseInt (CHR ''-'' # ds) =
           (if digits_val ds = 0 then NegZero else to_double (of_int (- digits_val ds)))"
proof -
  have sp: "\<not> is_js_space (CHR ''-'')" by (simp add: is_js_space_def)
  have tw: "takeWhile is_digit ds = ds" using assms(2) by (simp add: takeWhile_eq_all_conv)
  show ?thesis
    unfolding parseInt_def Let_def using sp assms(1) by (simp add: tw signed_zero_def)
qed

text \<open>The decimal numeral of an integer of at most 53 binary digits is read back exactly.\<close>

lemma parseInt_show_int:
  assumes "i \<noteq> 0" and "\<bar>i\<bar> \<le> 2 ^ 53"
  shows "parseInt (show_int i) = js_int i"
proof (cases "i < 0")
  case False
  then have "to_double (of_int (int (nat i))) = js_int i"
    using to_double_int [OF assms] by simp
  then show ?thesis
    using parseInt_all_digits [OF digits_nonempty digits_all_digit, of "nat i"] False assms(1)
    by (simp add: show_int_def digits_val_digits)
next
  case True
  then have "to_double (of_int (- int (nat (- i)))) = js_int i"
    using to_double_int [OF assms] by simp
  then show ?thesis
    using parseInt_minus_digits [OF digits_nonempty digits_all_digit, of "nat (- i)"] True
    by (simp add: show_int_def digits_val_digits)
qed

text \<open>A numeral of \<open>2^1024\<close> or more is read as the infinity.\<close>

lemma parseInt_overflow:
  assumes "ds \<noteq> []" and "\<forall>c \<in> set ds. is_digit c" and "2 ^ 1024 \<le> digits_val ds"
  shows "parseInt ds = PosInf"
proof -
  have "(of_int (2 ^ 1024) :: rat) \<le> of_int (digits_val ds)"
    using assms(3) by (simp only: of_int_le_iff)
  then have "pow2 1024 \<le> of_int (digits_val ds)" by (simp add: pow2_nat)
  then have "to_double (of_int (digits_val ds)) = PosInf" by (rule to_double_overflow)
  moreover have "digits_val ds \<noteq> 0" using assms(3) by auto
  ultimately show ?thesis using parseInt_all_digits [OF assms(1,2)] by simp
qed

lemma populate_foldl:
  "foldl (\<lambda>t field. t\<lparr>query := Query_populate field (query t)\<rparr>) this fs =
     this\<lparr>query := (query this)\<lparr>populate_paths := populate_paths (query this) @ fs\<rparr>\<rparr>"
  by (induction fs arbitrary: this) (simp_all add: Query_populate_def)


section \<open>Properties of paginate\<close>

lemma parseInt_zero: "parseInt ''0'' = Num 0"
  by (simp add: parseInt_def is_js_space_def is_digit_def digits_val_def digit_val_def
      signed_zero_def)

lemma parseInt_undefined: "parseInt ''undefined'' = NaN"
  by (simp add: parseInt_def is_js_space_def is_digit_def)

lemma paginate_handle:
  "paginate this =
     this\<lparr>query := (query this)
        \<lparr>skip_count := Some (js_mul (js_sub (paginate_page (queryString this)) (Num 1))
                                (paginate_limit (queryString this))),
         limit_count := Some (paginate_limit (queryString this))\<rparr>\<rparr>"
  by (simp add: paginate_def Let_def Query_skip_def Query_limit_def)

lemma paginate_page_cases:
  "paginate_page qs =
     (case get_prop qs ''page'' of
        None \<Rightarrow> Num 1
      | Some v \<Rightarrow> if parseInt (ToString v) = NaN \<or> is_zero (parseInt (ToString v)) then Num 1
                  else parseInt (ToString v))"
  by (simp add: paginate_page_def ToString_opt_def or_default_def parseInt_undefined
      split: option.splits)

lemma paginate_limit_cases:
  "paginate_limit qs =
     (case get_prop qs ''limit'' of
        None \<Rightarrow> Num 100
      | Some v \<Rightarrow> if parseInt (ToString v) = NaN \<or> is_zero (parseInt (ToString v)) then Num 100
                  else parseInt (ToString v))"
  by (simp add: paginate_limit_def ToString_opt_def or_default_def parseInt_undefined
      split: option.splits)

lemma skip_exact:
  assumes "0 < a" and "0 < b" and "(a - 1) * b < 2 ^ 53" and "a < 2 ^ 53"
  shows "js_mul (js_sub (js_int a) (Num 1)) (js_int b) = js_int ((a - 1) * b)"
proof (cases "a = 1")
  case True
  then show ?thesis using assms(2)
    by (simp add: js_sub_def js_add_def js_mul_def signed_zero_def)
next
  case False
  then have a: "1 < a" using assms(1) by simp
  have "js_sub (js_int a) (Num 1) = js_int (a - 1)"
    using js_sub_int [of 1 a] a assms(4) by simp
  moreover have "js_mul (js_int (a - 1)) (js_int b) = js_int ((a - 1) * b)"
  proof (rule js_mul_int)
    show "a - 1 \<noteq> 0" using a by simp
    show "b \<noteq> 0" using assms(2) by simp
    have "0 \<le> (a - 1) * b" using a assms(2) by simp
    then show "\<bar>(a - 1) * b\<bar> \<le> 2 ^ 53" using assms(3) by simp
  qed
  ultimately show ?thesis by simp
qed

text \<open>
  C4, as the code has it. \<^verbatim>\<open>paginate\<close> never fails; it sets skip to (page - 1) times
  limit and limit to limit, where page is the number \<^verbatim>\<open>parseInt\<close> reads from the page
  parameter, or 1 when the parameter is missing, when no integer can be read or when the
  number read is a zero, and limit likewise with 100. The parameters are strings, as
  their type says. A parameter that is the decimal numeral of a non-zero integer below
  \<open>2^53\<close> in magnitude gives that integer, and for a positive page and limit whose
  product stays below \<open>2^53\<close> the skip is the exact product.
\<close>

theorem paginate_amended:
  "paginate this =
     this\<lparr>query := (query this)
        \<lparr>skip_count := Some (js_mul (js_sub (paginate_page (queryString this)) (Num 1))
                                (paginate_limit (queryString this))),
         limit_count := Some (paginate_limit (queryString this))\<rparr>\<rparr>
   \<and> (get_prop qs ''page'' = None \<longrightarrow> paginate_page qs = Num 1)
   \<and> (get_prop qs ''page'' = Some (JStr s) \<longrightarrow>
        paginate_page qs =
          (if parseInt s = NaN \<or> is_zero (parseInt s) then Num 1 else parseInt s))
   \<and> (get_prop qs ''limit'' = None \<longrightarrow> paginate_limit qs = Num 100)
   \<and> (get_prop qs ''limit'' = Some (JStr s) \<longrightarrow>
        paginate_limit qs =
          (if parseInt s = NaN \<or> is_zero (parseInt s) then Num 100 else parseInt s))
   \<and> (n \<noteq> 0 \<and> \<bar>n\<bar> < 2 ^ 53 \<and> get_prop qs ''page'' = Some (JStr (show_int n)) \<longrightarrow>
        paginate_page qs = js_int n)
   \<and> (n \<noteq> 0 \<and> \<bar>n\<bar> < 2 ^ 53 \<and> get_prop qs ''limit'' = Some (JStr (show_int n)) \<longrightarrow>
        paginate_limit qs = js_int n)
   \<and> (0 < a \<and> a < 2 ^ 53 \<and> 0 < b \<and> b < 2 ^ 53 \<and> (a - 1) * b < 2 ^ 53 \<and>
      get_prop (queryString this) ''page'' = Some (JStr (show_int a)) \<and>
      get_prop (queryString this) ''limit'' = Some (JStr (show_int b)) \<longrightarrow>
        skip_count (query (paginate this)) = Some (js_int ((a - 1) * b)) \<and>
        limit_count (query (paginate this)) = Some (js_int b))"
proof -
  have p0: "paginate_page qs = Num 1" if "get_prop qs ''page'' = None"
    using that by (simp add: paginate_page_cases)
  have p1: "paginate_page qs =
      (if parseInt s = NaN \<or> is_zero (parseInt s) then Num 1 else parseInt s)"
    if "get_prop qs ''page'' = Some (JStr s)"
    using that by (simp add: paginate_page_cases)
  have l0: "paginate_limit qs = Num 100" if "get_prop qs ''limit'' = None"
    using that by (simp add: paginate_limit_cases)
  have l1: "paginate_limit qs =
      (if parseInt s = NaN \<or> is_zero (parseInt s) then Num 100 else parseInt s)"
    if "get_prop qs ''limit'' = Some (JStr s)"
    using that by (simp add: paginate_limit_cases)
  have d: "paginate_page qs = js_int n"
    if "n \<noteq> 0" "\<bar>n\<bar> < 2 ^ 53" "get_prop qs ''page'' = Some (JStr (show_int n))"
  proof -
    have "parseInt (show_int n) = js_int n" using parseInt_show_int [of n] that by simp
    then show ?thesis using that by (simp add: paginate_page_cases)
  qed
  have e: "paginate_limit qs = js_int n"
    if "n \<noteq> 0" "\<bar>n\<bar> < 2 ^ 53" "get_prop qs ''limit'' = Some (JStr (show_int n))"
  proof -
    have "parseInt (show_int n) = js_int n" using parseInt_show_int [of n] that by simp
    then show ?thesis using that by (simp add: paginate_limit_cases)
  qed
  have f: "skip_count (query (paginate this)) = Some (js_int ((a - 1) * b)) \<and>
           limit_count (query (paginate this)) = Some (js_int b)"
    if h: "0 < a" "a < 2 ^ 53" "0 < b" "b < 2 ^ 53" "(a - 1) * b < 2 ^ 53"
       "get_prop (queryString this) ''page'' = Some (JStr (show_int a))"
       "get_prop (queryString this) ''limit'' = Some (JStr (show_int b))"
  proof -
    have pa: "parseInt (show_int a) = js_int a" using parseInt_show_int [of a] h(1,2) by simp
    have pb: "parseInt (show_int b) = js_int b" using parseInt_show_int [of b] h(3,4) by simp
    have p: "paginate_page (queryString this) = js_int a"
      using h(1,6) pa by (simp add: paginate_page_cases)
    have l: "paginate_limit (queryString this) = js_int b"
      using h(3,7) pb by (simp add: paginate_limit_cases)
    show ?thesis
      using skip_exact [OF h(1) h(3) h(5) h(2)] by (simp add: paginate_handle p l)
  qed
  show ?thesis
    using paginate_handle [of this] p0 p1 l0 l1 d e f by blast
qed

lemma show_int_small: "show_int 2 = ''2''" "show_int 3 = ''3''" "show_int 10 = ''10''"
  by (simp_all add: show_int_def digits.simps digit_char_def)

theorem paginate_amended_witness:
  "query (paginate (new_ApiFeatures fresh_Query [(''page'', JStr ''2''), (''limit'', JStr ''abc'')])) =
     fresh_Query\<lparr>skip_count := Some (Num 100), limit_count := Some (Num 100)\<rparr>
   \<and> query (paginate (new_ApiFeatures fresh_Query [(''page'', JStr ''3''), (''limit'', JStr ''10'')])) =
     fresh_Query\<lparr>skip_count := Some (Num 20), limit_count := Some (Num 10)\<rparr>
   \<and> paginate_page [] = Num 1 \<and> paginate_limit [] = Num 100"
proof -
  let ?qs = "[(''page'', JStr ''2''), (''limit'', JStr ''abc'')]"
  let ?qt = "[(''page'', JStr ''3''), (''limit'', JStr ''10'')]"
  let ?s = "new_ApiFeatures fresh_Query ?qs"
  let ?t = "new_ApiFeatures fresh_Query ?qt"
  have h: "(2::int) \<noteq> 0 \<and> \<bar>2::int\<bar> < 2 ^ 53 \<and> get_prop ?qs ''page'' = Some (JStr (show_int 2))"
    by (simp add: get_prop_def show_int_small)
  have k: "get_prop ?qs ''limit'' = Some (JStr ''abc'')"
    by (simp add: get_prop_def)
  have l: "parseInt ''abc'' = NaN"
    by (simp add: parseInt_def is_js_space_def is_digit_def)
  note T = paginate_amended [where this = ?s and qs = ?qs and s = "''abc''" and n = 2
      and a = 1 and b = 1]
  have "paginate_page ?qs = js_int 2" using T h by blast
  then have p: "paginate_page ?qs = Num 2" by simp
  have "paginate_limit ?qs =
      (if parseInt ''abc'' = NaN \<or> is_zero (parseInt ''abc'') then Num 100 else parseInt ''abc'')"
    using T k by blast
  then have q: "paginate_limit ?qs = Num 100" by (simp add: l)
  have m: "js_mul (js_sub (Num 2) (Num 1)) (Num 100) = Num 100"
    using skip_exact [of 2 100] by simp
  have "paginate ?s =
     ?s\<lparr>query := (query ?s)
        \<lparr>skip_count := Some (js_mul (js_sub (paginate_page (queryString ?s)) (Num 1))
                                (paginate_limit (queryString ?s))),
         limit_count := Some (paginate_limit (queryString ?s))\<rparr>\<rparr>"
    using T by blast
  moreover have "queryString ?s = ?qs" by (simp add: new_ApiFeatures_def)
  ultimately have first: "query (paginate ?s) =
      fresh_Query\<lparr>skip_count := Some (Num 100), limit_count := Some (Num 100)\<rparr>"
    by (simp add: p q m new_ApiFeatures_def)
  have g: "(0::int) < 3 \<and> (3::int) < 2 ^ 53 \<and> (0::int) < 10 \<and> (10::int) < 2 ^ 53 \<and>
           ((3::int) - 1) * 10 < 2 ^ 53 \<and>
           get_prop (queryString ?t) ''page'' = Some (JStr (show_int 3)) \<and>
           get_prop (queryString ?t) ''limit'' = Some (JStr (show_int 10))"
    by (simp add: get_prop_def new_ApiFeatures_def show_int_small)
  have "skip_count (query (paginate ?t)) = Some (js_int ((3 - 1) * 10)) \<and>
        limit_count (query (paginate ?t)) = Some (js_int 10)"
    using paginate_amended [where this = ?t and qs = ?qt and s = "''abc''" and n = 2
        and a = 3 and b = 10] g by blast
  then have "skip_count (query (paginate ?t)) = Some (Num 20) \<and>
        limit_count (query (paginate ?t)) = Some (Num 10)"
    by simp
  moreover have "query (paginate ?t) =
      fresh_Query\<lparr>skip_count := skip_count (query (paginate ?t)),
                  limit_count := limit_count (query (paginate ?t))\<rparr>"
    by (simp add: paginate_handle new_ApiFeatures_def)
  ultimately have second: "query (paginate ?t) =
      fresh_Query\<lparr>skip_count := Some (Num 20), limit_count := Some (Num 10)\<rparr>"
    by simp
  have e: "get_prop ([] :: QueryString) ''page'' = None \<and>
           get_prop ([] :: QueryString) ''limit'' = None"
    by (simp add: get_prop_def)
  note U = paginate_amended [where this = ?s and qs = "[]" and s = "''abc''" and n = 2
      and a = 1 and b = 1]
  have "paginate_page [] = Num 1"
    using U [THEN conjunct2, THEN conjunct1] e by simp
  moreover have "paginate_limit [] = Num 100"
    using U [THEN conjunct2, THEN conjunct2, THEN conjunct2, THEN conjunct1] e by simp
  ultimately have third: "paginate_page [] = Num 1 \<and> paginate_limit [] = Num 100"
    by simp
  show ?thesis using first second third by simp
qed

text \<open>
  C4 as stated fails on the page parameter \<^verbatim>\<open>"0"\<close>: the parameter is there and its
  parsed value is 0, yet the page is 1.
\<close>

theorem paginate_page_zero_counterexample:
  "get_prop [(''page'', JStr ''0'')] ''page'' = Some (JStr ''0'') \<and>
   parseInt (ToString (JStr ''0'')) = Num 0 \<and>
   paginate_page [(''page'', JStr ''0'')] = Num 1 \<and>
   paginate_page [(''page'', JStr ''0'')] \<noteq> Num 0"
  by (simp add: get_prop_def parseInt_zero paginate_page_def ToString_opt_def or_default_def)



subsection \<open>Beyond \<open>2^53\<close>\<close>

text \<open>
  Past 53 binary digits the numbers are rounded: \<^verbatim>\<open>parseInt\<close> reads the numeral of
  \<open>2^53 + 1\<close> as \<open>2^53\<close>, a skip that is an odd product above \<open>2^53\<close> is the even
  neighbour, and the page after \<open>2^53\<close> is \<open>2^53\<close> again.
\<close>

lemma parseInt_rounds: "parseInt ''9007199254740993'' = Num 9007199254740992"
  by code_simp

lemma skip_rounds:
  "js_mul (js_sub (parseInt ''94906268'') (Num 1)) (parseInt ''94906267'') = Num 9007199515875288
   \<and> (94906268 - 1) * 94906267 = (9007199515875289 :: int)"
  by code_simp

lemma nextPage_rounds: "js_add (Num 9007199254740992) (Num 1) = Num 9007199254740992"
  by code_simp

text \<open>
  A limit numeral past the largest double is read as the infinity; with page 1 the skip
  is then zero times the infinity, which is NaN.
\<close>

lemma paginate_overflowing_limit:
  "query (paginate (new_ApiFeatures fresh_Query
      [(''page'', JStr ''0''),
       (''limit'', JStr ''1000000000000000000000000000000000000000000000000000000000000000000000000000000000000000000000000000000000000000000000000000000000000000000000000000000000000000000000000000000000000000000000000000000000000000000000000000000000000000000000000000000000000000000000000000000000000000000000000000000000000000000000'')])) =
     fresh_Query\<lparr>skip_count := Some NaN, limit_count := Some PosInf\<rparr>"
proof -
  let ?big = "''1000000000000000000000000000000000000000000000000000000000000000000000000000000000000000000000000000000000000000000000000000000000000000000000000000000000000000000000000000000000000000000000000000000000000000000000000000000000000000000000000000000000000000000000000000000000000000000000000000000000000000000000''"
  have v: "digits_val ?big = 10 ^ 309"
    by (simp add: digits_val_def digit_val_def)
  have d: "\<forall>c \<in> set ?big. is_digit c"
    by (simp add: is_digit_def)
  have "parseInt ?big = PosInf"
    by (rule parseInt_overflow) (simp_all add: v d)
  then show ?thesis
    by (simp add: paginate_handle paginate_page_cases paginate_limit_cases new_ApiFeatures_def
        get_prop_def parseInt_zero js_sub_def js_add_def js_mul_def signed_zero_def)
qed

section \<open>Properties of populate and search\<close>

text \<open>
  C5, as the code has it. A populate parameter that is a non-empty string is split on
  commas and each field is given to the handle in order, whatever the list the caller
  passed; \<^verbatim>\<open>"category,reviews"\<close> gives two paths. When the parameter is missing or the
  empty string, the caller's list is used (the empty list when omitted).
\<close>

theorem populate_amended:
  "(get_prop (queryString this) ''populate'' = Some (JStr s) \<and> s \<noteq> [] \<longrightarrow>
      populate opts this = Inr (add_populate_paths (split_on CHR '','' s) this))
   \<and> (get_prop (queryString this) ''populate'' = None \<or>
       get_prop (queryString this) ''populate'' = Some (JStr []) \<longrightarrow>
      populate opts this =
        Inr (add_populate_paths (case opts of None \<Rightarrow> [] | Some fs \<Rightarrow> fs) this))
   \<and> (get_prop (queryString this) ''populate'' = Some (JStr ''category,reviews'') \<longrightarrow>
      populate opts this = Inr (add_populate_paths [''category'', ''reviews''] this))"
  by (auto simp: populate_def Let_def split_comma_def populate_foldl add_populate_paths_def)

theorem populate_amended_witness:
  "populate (Some [''author''])
     (new_ApiFeatures fresh_Query [(''populate'', JStr ''category,reviews'')]) =
   Inr (new_ApiFeatures (fresh_Query\<lparr>populate_paths := [''category'', ''reviews'']\<rparr>)
          [(''populate'', JStr ''category,reviews'')])
   \<and> populate (Some [''author'']) (new_ApiFeatures fresh_Query []) =
   Inr (new_ApiFeatures (fresh_Query\<lparr>populate_paths := [''author'']\<rparr>) [])"
proof -
  let ?a = "new_ApiFeatures fresh_Query [(''populate'', JStr ''category,reviews'')]"
  let ?b = "new_ApiFeatures fresh_Query []"
  have ha: "get_prop (queryString ?a) ''populate'' = Some (JStr ''category,reviews'')"
    by (simp add: get_prop_def new_ApiFeatures_def)
  have hb: "get_prop (queryString ?b) ''populate'' = None"
    by (simp add: get_prop_def new_ApiFeatures_def)
  have "populate (Some [''author'']) ?a = Inr (add_populate_paths [''category'', ''reviews''] ?a)"
    using populate_amended [where this = ?a and s = "''category,reviews''"
        and opts = "Some [''author'']"] ha by simp
  moreover have "populate (Some [''author'']) ?b = Inr (add_populate_paths [''author''] ?b)"
    using populate_amended [where this = ?b and s = "''x''" and opts = "Some [''author'']"] hb by simp
  ultimately show ?thesis
    by (simp add: add_populate_paths_def new_ApiFeatures_def fresh_Query_def)
qed

text \<open>
  C5 as stated fails on a populate parameter that is the empty string: the key is
  present and splits into one empty field, yet the caller's list is what is applied.
\<close>

theorem populate_empty_counterexample:
  "get_prop [(''populate'', JStr [])] ''populate'' = Some (JStr []) \<and>
   split_on CHR '','' [] = [[]] \<and>
   populate (Some [''author'']) (new_ApiFeatures fresh_Query [(''populate'', JStr [])]) =
     Inr (new_ApiFeatures (fresh_Query\<lparr>populate_paths := [''author'']\<rparr>) [(''populate'', JStr [])])"
  by (simp add: get_prop_def populate_def new_ApiFeatures_def fresh_Query_def Query_populate_def)

text \<open>
  C6, as the code has it. \<^verbatim>\<open>search\<close> returns the translator as it is when the search
  parameter is missing or the empty string. On a non-empty string that the engine takes
  as a pattern it appends one predicate: the alternatives, one per field, of the
  case-insensitive regular expression whose source is the search term; the fields are
  name, email and title when the caller passes none. On a non-empty string that the
  engine rejects as a pattern it raises a \<^verbatim>\<open>SyntaxError\<close>.
\<close>

theorem search_amended:
  "(get_prop (queryString this) ''search'' = None \<or>
    get_prop (queryString this) ''search'' = Some (JStr []) \<longrightarrow>
      search valid_pattern flds this = Inr this)
   \<and> (get_prop (queryString this) ''search'' = Some (JStr s) \<and> s \<noteq> [] \<and> valid_pattern s \<longrightarrow>
      search valid_pattern flds this =
        Inr (add_condition
               (AnyOf (map (\<lambda>f. (f, RegExp s ''i''))
                  (case flds of None \<Rightarrow> [''name'', ''email'', ''title''] | Some fs \<Rightarrow> fs)))
               this))
   \<and> (get_prop (queryString this) ''search'' = Some (JStr s) \<and> s \<noteq> [] \<and> \<not> valid_pattern s \<longrightarrow>
      search valid_pattern flds this = Inl SyntaxError)"
  by (auto simp: search_def Let_def Query_find_def add_condition_def default_searchFields_def
      split: option.splits)

theorem search_amended_witness:
  "search (\<lambda>p. True) (Some [''name'']) (new_ApiFeatures fresh_Query [(''search'', JStr ''bob'')]) =
     Inr (new_ApiFeatures
            (fresh_Query\<lparr>conditions := [AnyOf [(''name'', RegExp ''bob'' ''i'')]]\<rparr>)
            [(''search'', JStr ''bob'')])
   \<and> search (\<lambda>p. True) None (new_ApiFeatures fresh_Query [(''search'', JStr [])]) =
     Inr (new_ApiFeatures fresh_Query [(''search'', JStr [])])"
proof -
  let ?a = "new_ApiFeatures fresh_Query [(''search'', JStr ''bob'')]"
  let ?b = "new_ApiFeatures fresh_Query [(''search'', JStr [])]"
  have ha: "get_prop (queryString ?a) ''search'' = Some (JStr ''bob'') \<and> ''bob'' \<noteq> []"
    by (simp add: get_prop_def new_ApiFeatures_def)
  have hb: "get_prop (queryString ?b) ''search'' = Some (JStr [])"
    by (simp add: get_prop_def new_ApiFeatures_def)
  have "search (\<lambda>p. True) (Some [''name'']) ?a =
          Inr (add_condition (AnyOf (map (\<lambda>f. (f, RegExp ''bob'' ''i'')) [''name''])) ?a)"
    using search_amended [where this = ?a and s = "''bob''" and valid_pattern = "\<lambda>p. True"
        and flds = "Some [''name'']"] ha by simp
  moreover have "search (\<lambda>p. True) None ?b = Inr ?b"
    using search_amended [where this = ?b and s = "''x''" and valid_pattern = "\<lambda>p. True"
        and flds = None] hb by simp
  ultimately show ?thesis
    by (simp add: add_condition_def new_ApiFeatures_def fresh_Query_def)
qed

text \<open>
  C6 as stated fails on the search term \<^verbatim>\<open>(\<close>: the parameter is present and not
  empty, yet nothing is appended. The engine rejects this pattern, a group that is not
  closed, and \<^verbatim>\<open>new RegExp\<close> raises; the grammar given here says that much of the
  engine and no more.
\<close>

theorem search_bad_pattern_counterexample:
  "get_prop [(''search'', JStr ''('')] ''search'' = Some (JStr ''('') \<and>
   search (\<lambda>p. p \<noteq> ''('') None (new_ApiFeatures fresh_Query [(''search'', JStr ''('')]) =
     Inl SyntaxError"
  by (simp add: search_def get_prop_def new_ApiFeatures_def)

section \<open>The operator rewriting, word by word\<close>

lemma operators_word: "a \<in> set operators \<Longrightarrow> a \<noteq> [] \<and> (\<forall>c \<in> set a. is_word c)"
  by (auto simp: operators_def is_word_def)

lemma operators_last: "a \<in> set operators \<Longrightarrow> is_word (last a)"
  using operators_word [of a] by (meson last_in_set)

lemma operators_hd: "a \<in> set operators \<Longrightarrow> is_word (hd a)"
  using operators_word [of a] by (meson hd_in_set)

lemma match_here_Some:
  "match_here p s = Some a \<Longrightarrow>
     a \<in> set operators \<and> take (length a) s = a \<and> \<not> starts_word (drop (length a) s) \<and> \<not> p"
proof -
  assume m: "match_here p s = Some a"
  then have wb: "word_boundary p s"
    and f: "List.find (\<lambda>a. take (length a) s = a \<and>
        word_boundary (is_word (last a)) (drop (length a) s)) operators = Some a"
    by (auto simp: match_here_def split: if_splits)
  from f have a: "a \<in> set operators" and t: "take (length a) s = a"
    and b: "word_boundary (is_word (last a)) (drop (length a) s)"
    by (auto simp: find_Some_iff)
  have ne: "a \<noteq> []" using operators_word [OF a] by simp
  then obtain c cs where s: "s = c # cs" using t by (cases s) auto
  have "hd a = c" using t s ne by (cases a) auto
  then have "starts_word s" using operators_hd [OF a] s by (simp add: starts_word_def)
  then have "\<not> p" using wb by (simp add: word_boundary_def)
  moreover have "\<not> starts_word (drop (length a) s)"
    using b operators_last [OF a] by (simp add: word_boundary_def)
  ultimately show ?thesis using a t by simp
qed

lemma match_here_nonword: "\<not> is_word c \<Longrightarrow> match_here p (c # cs) = None"
proof (rule ccontr)
  assume nw: "\<not> is_word c" and "match_here p (c # cs) \<noteq> None"
  then obtain a where m: "match_here p (c # cs) = Some a" by auto
  from match_here_Some [OF m] have a: "a \<in> set operators" and t: "take (length a) (c # cs) = a"
    by auto
  have "a \<noteq> []" using operators_word [OF a] by simp
  then have "hd a = c" using t by (cases a) auto
  then show False using operators_hd [OF a] nw by simp
qed

lemma replace_from_nonword: "\<not> is_word c \<Longrightarrow> replace_from p (c # cs) = c # replace_from False cs"
  by (simp add: replace_from.simps match_here_nonword)

lemma replace_from_inword:
  "replace_from True s = takeWhile is_word s @ replace_from False (dropWhile is_word s)"
proof (induction s)
  case Nil
  then show ?case by (simp add: replace_from.simps)
next
  case (Cons c cs)
  show ?case
  proof (cases "is_word c")
    case True
    then have "match_here True (c # cs) = None"
      by (simp add: match_here_def word_boundary_def starts_word_def)
    then show ?thesis using True Cons by (simp add: replace_from.simps)
  next
    case False
    then show ?thesis by (simp add: replace_from_nonword)
  qed
qed

lemma takeWhile_dropWhile_same [simp]: "takeWhile P (dropWhile P xs) = []"
  by (induction xs) auto

lemma find_eq: "List.find (\<lambda>a. w = a) xs = (if w \<in> set xs then Some w else None)"
  by (induction xs) auto

lemma whole_word_iff:
  assumes "a \<noteq> []" and "\<forall>c \<in> set a. is_word c"
  shows "(take (length a) s = a \<and> word_boundary (is_word (last a)) (drop (length a) s))
         = (takeWhile is_word s = a)"
proof
  assume l: "take (length a) s = a \<and> word_boundary (is_word (last a)) (drop (length a) s)"
  have la: "is_word (last a)" using assms by simp
  then have nb: "\<not> starts_word (drop (length a) s)" using l by (simp add: word_boundary_def)
  have s: "s = a @ drop (length a) s" using l by (metis append_take_drop_id)
  have "takeWhile is_word (a @ drop (length a) s) = a"
    using assms(2) nb by (cases "drop (length a) s") (auto simp: starts_word_def takeWhile_append2)
  then show "takeWhile is_word s = a" using s by simp
next
  assume r: "takeWhile is_word s = a"
  have t: "take (length a) s = a" using r by (metis takeWhile_eq_take)
  have "drop (length a) s = dropWhile is_word s" using r by (metis dropWhile_eq_drop)
  then have "\<not> starts_word (drop (length a) s)"
    by (cases "dropWhile is_word s") (auto simp: starts_word_def dropWhile_eq_Cons_conv)
  moreover have "is_word (last a)" using assms by simp
  ultimately show "take (length a) s = a \<and> word_boundary (is_word (last a)) (drop (length a) s)"
    using t by (simp add: word_boundary_def)
qed

lemma match_here_word:
  assumes "is_word c"
  shows "match_here False (c # cs) =
           (if c # takeWhile is_word cs \<in> set operators then Some (c # takeWhile is_word cs) else None)"
proof -
  let ?s = "c # cs"
  have tw: "takeWhile is_word ?s = c # takeWhile is_word cs" using assms by simp
  have "List.find (\<lambda>a. take (length a) ?s = a \<and>
        word_boundary (is_word (last a)) (drop (length a) ?s)) operators
      = List.find (\<lambda>a. takeWhile is_word ?s = a) operators"
    by (rule find_cong) (use whole_word_iff operators_word in blast)+
  then show ?thesis
    using assms by (simp add: match_here_def word_boundary_def starts_word_def find_eq tw del: takeWhile.simps)
qed

lemma replace_from_rewrite_words: "replace_from False s = rewrite_words s"
proof (induction s rule: rewrite_words.induct)
  case 1
  then show ?case by (simp add: replace_from.simps)
next
  case (2 c cs)
  show ?case
  proof (cases "is_word c")
    case False
    then show ?thesis using 2 by (simp add: replace_from_nonword)
  next
    case True
    let ?w = "c # takeWhile is_word cs"
    have ih: "replace_from False (dropWhile is_word cs) = rewrite_words (dropWhile is_word cs)"
      using 2(1) [OF True refl] by simp
    have tail: "replace_from True (dropWhile is_word cs) = rewrite_words (dropWhile is_word cs)"
      using replace_from_inword [of "dropWhile is_word cs"] ih by simp
    show ?thesis
    proof (cases "?w \<in> set operators")
      case w: True
      have dr: "drop (length ?w) (c # cs) = dropWhile is_word cs"
        by (simp add: dropWhile_eq_drop)
      have "replace_from False (c # cs) =
              CHR ''$'' # ?w @ replace_from (is_word (last ?w)) (drop (length ?w) (c # cs))"
        using match_here_word [OF True, of cs] w by (simp add: replace_from.simps)
      moreover have "is_word (last ?w)" using operators_last [OF w] .
      ultimately show ?thesis using True w dr tail by (simp add: Let_def)
    next
      case w: False
      have "replace_from False (c # cs) = c # replace_from True cs"
        using match_here_word [OF True, of cs] w True by (simp add: replace_from.simps)
      then show ?thesis using True w replace_from_inword [of cs] ih by (simp add: Let_def)
    qed
  qed
qed

text \<open>
  C10. The rewriting runs over the whole serialization: every maximal word of it that is
  an operator takes the dollar sign, in a key or in a value alike. So the mapping
  \<^verbatim>\<open>{status: "in"}\<close> gives the predicate \<^verbatim>\<open>{status: "$in"}\<close>, and a field named
  \<^verbatim>\<open>in\<close> is renamed.
\<close>

theorem filter_rewrites_every_word:
  "replace_ops (JSON_stringify v) = rewrite_words (JSON_stringify v) \<and>
   build_filters [(''status'', JStr ''in'')] = Inr [(''status'', Plain (JStr ''$in''))] \<and>
   build_filters [(''in'', JStr ''x'')] = Inr [(''$in'', Plain (JStr ''x''))]"
proof -
  have "build_filters [(''status'', JStr ''in'')] = Inr [(''status'', Plain (JStr ''$in''))]"
    by code_simp
  moreover have "build_filters [(''in'', JStr ''x'')] = Inr [(''$in'', Plain (JStr ''x''))]"
    by code_simp
  ultimately show ?thesis
    by (simp add: replace_ops_def replace_from_rewrite_words)
qed

section \<open>Properties of filter\<close>

text \<open>
  C3, as the code has it. When \<^verbatim>\<open>filter\<close> returns, the handle has gained the predicate
  built from the mapping; a count query was sent, for that same predicate, exactly when
  the page parameter is truthy (present and not the empty string), and then the answer
  is the new total; otherwise no query was sent and the total is what it was.
\<close>

theorem filter_count_amended:
  assumes "ApiFeatures_filter countDocuments this = Inr (this', sent)"
  shows "\<exists>filters. build_filters (queryString this) = Inr filters \<and>
           query this' = Query_find (Filters filters) (query this) \<and>
           (if truthy_opt (get_prop (queryString this) ''page'')
            then sent = [Filters filters] \<and>
                 (\<exists>n. countDocuments (Filters filters) = Inr n \<and> total this' = Some n)
            else sent = [] \<and> total this' = total this)
         \<and> total (new_ApiFeatures q qs) = None"
  using assms unfolding ApiFeatures_filter_def Let_def
  by (auto simp: new_ApiFeatures_def split: sum.splits if_splits)

theorem filter_count_amended_witness:
  "ApiFeatures_filter (\<lambda>p. Inr 7)
     (new_ApiFeatures fresh_Query [(''page'', JStr ''2''), (''name'', JStr ''Alice'')]) =
   Inr (\<lparr> query = fresh_Query\<lparr>conditions := [Filters [(''name'', Plain (JStr ''Alice''))]]\<rparr>,
          queryString = [(''page'', JStr ''2''), (''name'', JStr ''Alice'')],
          total = Some 7 \<rparr>,
        [Filters [(''name'', Plain (JStr ''Alice''))]])
   \<and> truthy_opt (get_prop [(''page'', JStr ''2''), (''name'', JStr ''Alice'')] ''page'')
   \<and> build_filters [(''page'', JStr ''2''), (''name'', JStr ''Alice'')] =
       Inr [(''name'', Plain (JStr ''Alice''))]"
proof -
  let ?qs = "[(''page'', JStr ''2''), (''name'', JStr ''Alice'')]"
  let ?t = "new_ApiFeatures fresh_Query ?qs"
  let ?f = "[(''name'', Plain (JStr ''Alice''))]"
  let ?t' = "\<lparr> query = fresh_Query\<lparr>conditions := [Filters ?f]\<rparr>, queryString = ?qs, total = Some 7 \<rparr>"
  have e: "ApiFeatures_filter (\<lambda>p. Inr 7) ?t = Inr (?t', [Filters ?f])"
    by code_simp
  have p: "truthy_opt (get_prop ?qs ''page'')"
    by (simp add: get_prop_def truthy_opt_def)
  from filter_count_amended [OF e, of fresh_Query "[]"]
  obtain filters where "build_filters (queryString ?t) = Inr filters"
    and "if truthy_opt (get_prop (queryString ?t) ''page'')
         then [Filters ?f] = [Filters filters] \<and>
              (\<exists>n. (Inr 7 :: error + nat) = Inr n \<and> total ?t' = Some n)
         else [Filters ?f] = [] \<and> total ?t' = total ?t"
    by blast
  then have "build_filters ?qs = Inr ?f"
    using p by (auto simp: new_ApiFeatures_def)
  then show ?thesis using e p by simp
qed

text \<open>
  C3 as stated fails on a page parameter that is the empty string: the mapping has a
  page entry, yet no count query is sent and the total stays null.
\<close>

theorem filter_count_empty_page_counterexample:
  "get_prop [(''page'', JStr [])] ''page'' = Some (JStr []) \<and>
   ApiFeatures_filter (\<lambda>p. Inr 7) (new_ApiFeatures fresh_Query [(''page'', JStr [])]) =
     Inr (\<lparr> query = fresh_Query\<lparr>conditions := [Filters []]\<rparr>,
            queryString = [(''page'', JStr [])],
            total = None \<rparr>, [])"
  by code_simp

text \<open>
  C2. On the mapping \<^verbatim>\<open>{country: "in"}\<close> the value is no operator suffix, yet
  \<^verbatim>\<open>filter\<close> rewrites it: the predicate it gives to the handle is
  \<^verbatim>\<open>{country: "$in"}\<close>, which asks for another country than the mapping does. An
  operator suffix, as in \<^verbatim>\<open>{price: {gte: "100"}}\<close>, is rewritten into the comparator.
\<close>

theorem filter_rewrites_plain_value:
  "ApiFeatures_filter (\<lambda>p. Inr 0) (new_ApiFeatures fresh_Query [(''country'', JStr ''in'')]) =
     Inr (\<lparr> query = fresh_Query\<lparr>conditions := [Filters [(''country'', Plain (JStr ''$in''))]]\<rparr>,
            queryString = [(''country'', JStr ''in'')],
            total = None \<rparr>, [])
   \<and> JStr ''$in'' \<noteq> JStr ''in''
   \<and> build_filters [(''price'', JObj [(''gte'', JStr ''100'')])] =
       Inr [(''price'', Plain (JObj [(''$gte'', JStr ''100'')]))]"
  by code_simp

section \<open>The serialization, rewritten and read back\<close>

lemma ins_keep_run: "\<forall>x \<in> set a. is_word x \<Longrightarrow> ins True r r' \<Longrightarrow> ins True (a @ r) (a @ r')"
  by (induction a) (auto intro: ins_keep)

lemma ins_replace_from: "ins p t (replace_from p t)"
proof (induction p t rule: replace_from.induct)
  case (1 prev)
  then show ?case by (simp add: replace_from.simps ins_Nil)
next
  case (2 prev c cs)
  show ?case
  proof (cases "match_here prev (c # cs)")
    case None
    then show ?thesis using 2(1) [OF None] by (simp add: replace_from.simps ins_keep)
  next
    case (Some a)
    from match_here_Some [OF Some] have a: "a \<in> set operators"
      and t: "take (length a) (c # cs) = a" and np: "\<not> prev" by auto
    let ?r = "drop (length a) (c # cs)"
    have ih: "ins (is_word (last a)) ?r (replace_from (is_word (last a)) ?r)"
      using 2(2) [OF Some] .
    have la: "is_word (last a)" using operators_last [OF a] .
    obtain a' where a': "a = c # a'" using t operators_word [OF a] by (cases a) auto
    have w: "is_word c" "\<forall>x \<in> set a'. is_word x" using operators_word [OF a] a' by auto
    have split: "c # cs = c # a' @ ?r" using t a' by (metis append_Cons append_take_drop_id)
    have "ins True (a' @ ?r) (a' @ replace_from True ?r)"
      using ins_keep_run [OF w(2)] ih la by simp
    then have "ins prev (c # a' @ ?r) (CHR ''$'' # c # a' @ replace_from True ?r)"
      using np w(1) by (intro ins_dollar) simp_all
    moreover have "replace_from prev (c # cs) = CHR ''$'' # c # a' @ replace_from True ?r"
      using Some la a' by (simp add: replace_from.simps)
    ultimately show ?thesis using split by metis
  qed
qed

lemma hex_digit_props: "d < 16 \<Longrightarrow> hex_val (hex_digit d) = Some d \<and> is_word (hex_digit d)"
proof -
  assume "d < 16"
  then have "d = 0 \<or> d = 1 \<or> d = 2 \<or> d = 3 \<or> d = 4 \<or> d = 5 \<or> d = 6 \<or> d = 7 \<or> d = 8
      \<or> d = 9 \<or> d = 10 \<or> d = 11 \<or> d = 12 \<or> d = 13 \<or> d = 14 \<or> d = 15"
    by arith
  then show ?thesis
    by (elim disjE) (simp_all add: hex_digit_def hex_val_def is_word_def)
qed

lemma quote_char_cases:
  obtains (lit) "quote_char c = [c]" "plain c"
  | (esc) e where "quote_char c = [backslash, e]" "e \<noteq> CHR ''u''" "unescape e = Some c"
      "e \<noteq> CHR ''$''"
  | (uni) h1 h2 a b where
      "quote_char c = [backslash, CHR ''u'', CHR ''0'', CHR ''0'', h1, h2]"
      "hex_val h1 = Some a" "hex_val h2 = Some b" "char_of (16 * a + b) = c"
      "is_word h1" "is_word h2"
proof -
  consider (e) "c = CHR 0x08 \<or> c = CHR 0x09 \<or> c = CHR 0x0A \<or> c = CHR 0x0C \<or> c = CHR 0x0D
        \<or> c = dquote \<or> c = backslash"
    | (u) "\<not> (c = CHR 0x08 \<or> c = CHR 0x09 \<or> c = CHR 0x0A \<or> c = CHR 0x0C \<or> c = CHR 0x0D
        \<or> c = dquote \<or> c = backslash)" "(of_char c :: nat) < 0x20"
    | (l) "\<not> (c = CHR 0x08 \<or> c = CHR 0x09 \<or> c = CHR 0x0A \<or> c = CHR 0x0C \<or> c = CHR 0x0D
        \<or> c = dquote \<or> c = backslash)" "\<not> (of_char c :: nat) < 0x20"
    by blast
  then show thesis
  proof cases
    case e
    then show ?thesis
      by (elim disjE) (rule esc [of "last (quote_char c)"];
          simp add: quote_char_def unescape_def dquote_def backslash_def)+
  next
    case u
    let ?n = "of_char c :: nat"
    have q: "quote_char c = [backslash, CHR ''u'', CHR ''0'', CHR ''0'',
        hex_digit (?n div 16), hex_digit (?n mod 16)]"
      using u by (simp add: quote_char_def)
    have d: "?n div 16 < 16" "?n mod 16 < 16" using u(2) by simp_all
    have "char_of (16 * (?n div 16) + ?n mod 16) = c" by simp
    then show ?thesis
      using uni [OF q] hex_digit_props [OF d(1)] hex_digit_props [OF d(2)] by blast
  next
    case l
    then show ?thesis by (intro lit) (simp_all add: quote_char_def plain_def)
  qed
qed

lemma lex_string_plain: "plain c \<Longrightarrow> lex_string (c # t) = cons_char c (lex_string t)"
  by (simp add: plain_def)

lemma plain_dollar: "plain CHR ''$''"
  by (simp add: plain_def dquote_def backslash_def)

lemma lex_string_esc:
  "e \<noteq> CHR ''u'' \<Longrightarrow> unescape e = Some ch \<Longrightarrow>
     lex_string (backslash # e # t) = cons_char ch (lex_string t)"
  by (simp add: dquote_def backslash_def)

lemma lex_string_bad_esc: "lex_string (backslash # CHR ''$'' # t) = Inl SyntaxError"
  by (simp add: dquote_def backslash_def unescape_def)

lemma lex_string_uni:
  "hex_val h1 = Some a \<Longrightarrow> hex_val h2 = Some b \<Longrightarrow>
     lex_string (backslash # CHR ''u'' # CHR ''0'' # CHR ''0'' # h1 # h2 # t) =
       cons_char (char_of (16 * a + b)) (lex_string t)"
  by (simp add: dquote_def backslash_def hex_val_def)

lemma ins_nonword: "\<not> is_word c \<Longrightarrow> ins p (c # t) B \<Longrightarrow> \<exists>B'. B = c # B' \<and> ins False t B'"
  by (auto elim: ins_ConsE)

lemma ins_inword: "ins True (c # t) B \<Longrightarrow> \<exists>B'. B = c # B' \<and> ins (is_word c) t B'"
  by (auto elim: ins_ConsE)

lemma ins_any:
  "ins p (c # t) B \<Longrightarrow>
     (\<exists>B'. B = c # B' \<and> ins (is_word c) t B') \<or> (\<exists>B'. B = CHR ''$'' # c # B' \<and> ins True t B')"
  by (auto elim: ins_ConsE)

lemma cons_char_lexed: "cons_char ch (lexed res r) = lexed (map_option ((#) ch) res) r"
  by (cases res) (simp_all add: lexed_def cons_char_def)

lemma not_word_backslash: "\<not> is_word backslash" "\<not> is_word dquote" "is_word CHR ''u''" "is_word CHR ''0''"
  by (simp_all add: is_word_def backslash_def dquote_def)

lemma lex_ins:
  "ins p (escape_body s) B \<Longrightarrow>
     \<exists>res. (\<forall>r. lex_string (B @ dquote # r) = lexed res r) \<and>
           (\<forall>s'. res = Some s' \<longrightarrow> s' = s \<or> CHR ''$'' \<in> set s')"
proof (induction s arbitrary: p B)
  case Nil
  then have "B = []" by (auto simp: escape_body_def elim: ins_NilE)
  then have "\<forall>r. lex_string (B @ dquote # r) = lexed (Some []) r"
    by (simp add: lexed_def)
  then show ?case by blast
next
  case (Cons c s)
  have eb: "escape_body (c # s) = quote_char c @ escape_body s" by (simp add: escape_body_def)
  have step: "\<exists>res. (\<forall>r. lex_string (B' @ dquote # r) = lexed res r) \<and>
           (\<forall>s'. res = Some s' \<longrightarrow> s' = s \<or> CHR ''$'' \<in> set s')"
    if "ins q (escape_body s) B'" for q B'
    using Cons.IH [OF that] .
  show ?case
  proof (cases c rule: quote_char_cases)
    case lit
    from Cons.prems eb lit(1) have "ins p (c # escape_body s) B" by simp
    from ins_any [OF this] show ?thesis
    proof
      assume "\<exists>B'. B = c # B' \<and> ins (is_word c) (escape_body s) B'"
      then obtain B' where B: "B = c # B'" and i: "ins (is_word c) (escape_body s) B'" by blast
      from step [OF i] obtain res where r: "\<forall>r. lex_string (B' @ dquote # r) = lexed res r"
        and v: "\<forall>s'. res = Some s' \<longrightarrow> s' = s \<or> CHR ''$'' \<in> set s'" by blast
      have "\<forall>r. lex_string (B @ dquote # r) = lexed (map_option ((#) c) res) r"
        using B r lex_string_plain [OF lit(2)] by (simp add: cons_char_lexed)
      moreover have "\<forall>s'. map_option ((#) c) res = Some s' \<longrightarrow> s' = c # s \<or> CHR ''$'' \<in> set s'"
        using v by auto
      ultimately show ?thesis by blast
    next
      assume "\<exists>B'. B = CHR ''$'' # c # B' \<and> ins True (escape_body s) B'"
      then obtain B' where B: "B = CHR ''$'' # c # B'" and i: "ins True (escape_body s) B'" by blast
      from step [OF i] obtain res where r: "\<forall>r. lex_string (B' @ dquote # r) = lexed res r"
        by blast
      have "\<forall>r. lex_string (B @ dquote # r) = lexed (map_option (\<lambda>x. CHR ''$'' # c # x) res) r"
        using B r lex_string_plain [OF lit(2)] lex_string_plain [OF plain_dollar]
        by (simp add: cons_char_lexed option.map_comp comp_def)
      moreover have "\<forall>s'. map_option (\<lambda>x. CHR ''$'' # c # x) res = Some s' \<longrightarrow>
          s' = c # s \<or> CHR ''$'' \<in> set s'"
        by auto
      ultimately show ?thesis by blast
    qed
  next
    case (esc e)
    from Cons.prems eb esc(1) have "ins p (backslash # e # escape_body s) B" by simp
    from ins_nonword [OF not_word_backslash(1) this]
    obtain B1 where B: "B = backslash # B1" and i1: "ins False (e # escape_body s) B1" by blast
    from ins_any [OF i1] show ?thesis
    proof
      assume "\<exists>B'. B1 = e # B' \<and> ins (is_word e) (escape_body s) B'"
      then obtain B' where B1: "B1 = e # B'" and i: "ins (is_word e) (escape_body s) B'" by blast
      from step [OF i] obtain res where r: "\<forall>r. lex_string (B' @ dquote # r) = lexed res r"
        and v: "\<forall>s'. res = Some s' \<longrightarrow> s' = s \<or> CHR ''$'' \<in> set s'" by blast
      have "\<forall>r. lex_string (B @ dquote # r) = lexed (map_option ((#) c) res) r"
        using B B1 r lex_string_esc [OF esc(2) esc(3)] by (simp add: cons_char_lexed)
      moreover have "\<forall>s'. map_option ((#) c) res = Some s' \<longrightarrow> s' = c # s \<or> CHR ''$'' \<in> set s'"
        using v by auto
      ultimately show ?thesis by blast
    next
      assume "\<exists>B'. B1 = CHR ''$'' # e # B' \<and> ins True (escape_body s) B'"
      then obtain B' where B1: "B1 = CHR ''$'' # e # B'" by blast
      have "\<forall>r. lex_string (B @ dquote # r) = lexed None r"
        using B B1 lex_string_bad_esc by (simp add: lexed_def)
      then show ?thesis by blast
    qed
  next
    case (uni h1 h2 a b)
    let ?E = "escape_body s"
    from Cons.prems eb uni(1)
    have "ins p (backslash # CHR ''u'' # CHR ''0'' # CHR ''0'' # h1 # h2 # ?E) B" by simp
    from ins_nonword [OF not_word_backslash(1) this]
    obtain B1 where B: "B = backslash # B1"
      and i1: "ins False (CHR ''u'' # CHR ''0'' # CHR ''0'' # h1 # h2 # ?E) B1" by blast
    have tail: "\<exists>B'. B2 = CHR ''0'' # CHR ''0'' # h1 # h2 # B' \<and> ins True ?E B'"
      if "ins True (CHR ''0'' # CHR ''0'' # h1 # h2 # ?E) B2" for B2
    proof -
      from ins_inword [OF that] obtain B3 where 3: "B2 = CHR ''0'' # B3"
        and i3: "ins True (CHR ''0'' # h1 # h2 # ?E) B3" using not_word_backslash(4) by auto
      from ins_inword [OF i3] obtain B4 where 4: "B3 = CHR ''0'' # B4"
        and i4: "ins True (h1 # h2 # ?E) B4" using not_word_backslash(4) by auto
      from ins_inword [OF i4] obtain B5 where 5: "B4 = h1 # B5"
        and i5: "ins True (h2 # ?E) B5" using uni(5) by auto
      from ins_inword [OF i5] obtain B6 where 6: "B5 = h2 # B6"
        and i6: "ins True ?E B6" using uni(6) by auto
      show ?thesis using 3 4 5 6 i6 by blast
    qed
    from ins_any [OF i1] show ?thesis
    proof
      assume "\<exists>B'. B1 = CHR ''u'' # B' \<and>
          ins (is_word CHR ''u'') (CHR ''0'' # CHR ''0'' # h1 # h2 # ?E) B'"
      then obtain B2 where B1: "B1 = CHR ''u'' # B2"
        and i2: "ins True (CHR ''0'' # CHR ''0'' # h1 # h2 # ?E) B2"
        using not_word_backslash(3) by auto
      from tail [OF i2] obtain B' where B2: "B2 = CHR ''0'' # CHR ''0'' # h1 # h2 # B'"
        and i: "ins True ?E B'" by blast
      from step [OF i] obtain res where r: "\<forall>r. lex_string (B' @ dquote # r) = lexed res r"
        and v: "\<forall>s'. res = Some s' \<longrightarrow> s' = s \<or> CHR ''$'' \<in> set s'" by blast
      have "\<forall>r. lex_string (B @ dquote # r) = lexed (map_option ((#) c) res) r"
        using B B1 B2 r lex_string_uni [OF uni(2) uni(3)] uni(4) by (simp add: cons_char_lexed)
      moreover have "\<forall>s'. map_option ((#) c) res = Some s' \<longrightarrow> s' = c # s \<or> CHR ''$'' \<in> set s'"
        using v by auto
      ultimately show ?thesis by blast
    next
      assume "\<exists>B'. B1 = CHR ''$'' # CHR ''u'' # B' \<and>
          ins True (CHR ''0'' # CHR ''0'' # h1 # h2 # ?E) B'"
      then obtain B' where B1: "B1 = CHR ''$'' # CHR ''u'' # B'" by blast
      have "\<forall>r. lex_string (B @ dquote # r) = lexed None r"
        using B B1 lex_string_bad_esc by (simp add: lexed_def)
      then show ?thesis by blast
    qed
  qed
qed

lemma rw_string_lex:
  "lex_string (replace_ops (escape_body s) @ dquote # r) = lexed (rw_string s) r"
proof -
  from lex_ins [OF ins_replace_from [of False "escape_body s"]]
  obtain res where a: "\<forall>r. lex_string (replace_ops (escape_body s) @ dquote # r) = lexed res r"
    by (auto simp: replace_ops_def)
  then have "lex_string (replace_ops (escape_body s) @ [dquote]) = lexed res []" by blast
  then have "rw_string s = res" by (cases res) (simp_all add: rw_string_def lexed_def)
  then show ?thesis using a by simp
qed

lemma rw_string_dollar: "rw_string s = Some s' \<Longrightarrow> s' = s \<or> CHR ''$'' \<in> set s'"
proof -
  assume h: "rw_string s = Some s'"
  from lex_ins [OF ins_replace_from [of False "escape_body s"]]
  obtain res where a: "\<forall>r. lex_string (replace_ops (escape_body s) @ dquote # r) = lexed res r"
    and v: "\<forall>s'. res = Some s' \<longrightarrow> s' = s \<or> CHR ''$'' \<in> set s'"
    by (auto simp: replace_ops_def)
  have "lexed res [] = lexed (rw_string s) []" using a rw_string_lex [of s "[]"] by simp
  then have "res = Some s'" using h by (cases res) (simp_all add: lexed_def)
  then show ?thesis using v by blast
qed

subsection \<open>Plain strings\<close>

lemma lex_string_dquote: "lex_string (dquote # r) = Inr ([], r)"
  by simp

declare lex_string.simps [simp del]

lemma quote_char_plain: "plain c \<Longrightarrow> quote_char c = [c]"
  by (cases c rule: quote_char_cases)
     (auto simp: plain_def quote_char_def dquote_def backslash_def split: if_splits)

lemma escape_body_plain: "\<forall>c \<in> set s. plain c \<Longrightarrow> escape_body s = s"
  by (induction s) (simp_all add: escape_body_def quote_char_plain)

lemma ins_set: "ins p t t' \<Longrightarrow> set t' \<subseteq> insert CHR ''$'' (set t)"
  by (induction rule: ins.induct) auto

lemma lex_string_all_plain: "\<forall>c \<in> set B. plain c \<Longrightarrow> lex_string (B @ dquote # r) = Inr (B, r)"
  by (induction B) (simp_all add: lex_string_plain lex_string_dquote cons_char_def)

lemma rw_string_plain:
  assumes "\<forall>c \<in> set s. plain c"
  shows "rw_string s = Some (replace_ops s)"
proof -
  have "set (replace_ops s) \<subseteq> insert CHR ''$'' (set s)"
    using ins_set [OF ins_replace_from [of False s]] by (simp add: replace_ops_def)
  then have "\<forall>c \<in> set (replace_ops s). plain c" using assms plain_dollar by auto
  then have "lex_string (replace_ops s @ [dquote]) = Inr (replace_ops s, [])"
    by (rule lex_string_all_plain)
  then show ?thesis by (simp add: rw_string_def escape_body_plain [OF assms])
qed

subsection \<open>The rewriting runs through the serialization piece by piece\<close>

lemma takeWhile_append_stop:
  "b = [] \<or> \<not> P (hd b) \<Longrightarrow> takeWhile P (a @ b) = takeWhile P a"
  by (induction a) (auto simp: takeWhile_eq_Nil_iff)

lemma dropWhile_append_stop:
  "b = [] \<or> \<not> P (hd b) \<Longrightarrow> dropWhile P (a @ b) = dropWhile P a @ b"
  by (induction a) (auto simp: dropWhile_eq_self_iff)

lemma rewrite_words_nonword: "\<not> is_word c \<Longrightarrow> rewrite_words (c # cs) = c # rewrite_words cs"
  by simp

lemma rewrite_words_wordstart:
  "is_word c \<Longrightarrow> rewrite_words (c # cs) =
     (if c # takeWhile is_word cs \<in> set operators then CHR ''$'' # c # takeWhile is_word cs
      else c # takeWhile is_word cs) @ rewrite_words (dropWhile is_word cs)"
  by (simp add: Let_def)

declare rewrite_words.simps(2) [simp del]

lemma rewrite_words_split:
  "b = [] \<or> \<not> is_word (hd b) \<Longrightarrow> rewrite_words (a @ b) = rewrite_words a @ rewrite_words b"
proof (induction a rule: rewrite_words.induct)
  case 1
  then show ?case by simp
next
  case (2 c cs)
  show ?case
  proof (cases "is_word c")
    case False
    then show ?thesis using 2 by (simp add: rewrite_words_nonword)
  next
    case True
    have "rewrite_words (dropWhile is_word cs @ b) =
            rewrite_words (dropWhile is_word cs) @ rewrite_words b"
      using 2(1) [OF True refl] 2(3) by simp
    then show ?thesis
      using True 2(3)
      by (simp add: rewrite_words_wordstart takeWhile_append_stop dropWhile_append_stop)
  qed
qed

lemma rewrite_words_word:
  assumes "\<forall>c \<in> set w. is_word c" and "w \<notin> set operators"
  shows "rewrite_words w = w"
proof (cases w)
  case Nil
  then show ?thesis by simp
next
  case (Cons c cs)
  have tw: "takeWhile is_word cs = cs" and dw: "dropWhile is_word cs = []" and c: "is_word c"
    using assms(1) Cons by (simp_all add: takeWhile_eq_all_conv)
  have "c # cs \<notin> set operators" using assms(2) Cons by simp
  then show ?thesis unfolding Cons by (simp add: rewrite_words_wordstart [OF c] tw dw)
qed

lemma is_digit_word: "is_digit c \<Longrightarrow> is_word c"
  by (auto simp: is_digit_def is_word_def Let_def)

lemma digits_not_operator: "digits n \<notin> set operators"
proof
  assume "digits n \<in> set operators"
  then have "\<not> is_digit (hd (digits n))"
    by (auto simp: operators_def is_digit_def)
  moreover have "is_digit (hd (digits n))"
    using digits_all_digit [of n] digits_nonempty [of n] by (cases "digits n") auto
  ultimately show False by simp
qed

lemma rewrite_words_digits: "rewrite_words (digits n) = digits n"
  using rewrite_words_word [OF _ digits_not_operator] digits_all_digit is_digit_word by blast

lemma not_word_punct:
  "\<not> is_word CHR '',''" "\<not> is_word CHR '':''" "\<not> is_word CHR ''[''" "\<not> is_word CHR '']''"
  "\<not> is_word CHR ''{''" "\<not> is_word CHR ''}''" "\<not> is_word CHR ''-''"
  by (simp_all add: is_word_def)

lemma rewrite_words_show_int: "rewrite_words (show_int n) = show_int n"
  by (simp add: show_int_def rewrite_words_digits rewrite_words_nonword not_word_punct)

lemma rewrite_words_literals:
  "rewrite_words ''null'' = ''null''" "rewrite_words ''true'' = ''true''"
  "rewrite_words ''false'' = ''false''"
  by (rule rewrite_words_word; simp add: is_word_def operators_def)+

lemma rewrite_words_quote:
  "rewrite_words (quote s) = dquote # replace_ops (escape_body s) @ [dquote]"
proof -
  have "rewrite_words (escape_body s @ [dquote]) = rewrite_words (escape_body s) @ rewrite_words [dquote]"
    using rewrite_words_split [of "[dquote]" "escape_body s"] not_word_backslash(2) by simp
  then show ?thesis
    by (simp add: quote_def replace_ops_def replace_from_rewrite_words rewrite_words_nonword
        not_word_backslash(2))
qed

lemma rewrite_words_tail:
  "rewrite_words (concat (map (\<lambda>z. CHR '','' # z) ys)) =
     concat (map (\<lambda>z. CHR '','' # rewrite_words z) ys)"
proof (induction ys)
  case Nil
  then show ?case by simp
next
  case (Cons y ys)
  let ?T = "concat (map (\<lambda>z. CHR '','' # z) ys)"
  have "?T = [] \<or> \<not> is_word (hd ?T)" using not_word_punct(1) by (cases ys) simp_all
  then have "rewrite_words (y @ ?T) = rewrite_words y @ rewrite_words ?T"
    by (rule rewrite_words_split)
  then show ?case using Cons by (simp add: rewrite_words_nonword not_word_punct(1))
qed

lemma join_Cons: "join sep (y # ys) = y @ concat (map (\<lambda>z. sep @ z) ys)"
  by (simp add: join_def)

lemma rewrite_words_join:
  "rewrite_words (join '','' ys) = join '','' (map rewrite_words ys)"
proof (cases ys)
  case Nil
  then show ?thesis by (simp add: join_def)
next
  case (Cons y ys')
  let ?T = "concat (map (\<lambda>z. CHR '','' # z) ys')"
  have "?T = [] \<or> \<not> is_word (hd ?T)" using not_word_punct(1) by (cases ys') simp_all
  then have "rewrite_words (y @ ?T) = rewrite_words y @ rewrite_words ?T"
    by (rule rewrite_words_split)
  then show ?thesis using Cons by (simp add: join_Cons rewrite_words_tail comp_def)
qed

lemma RW_scalar:
  "RW JNull = ''null''" "RW (JBool b) = (if b then ''true'' else ''false'')"
  "RW (JNum n) = show_int n" "RW (JStr s) = dquote # replace_ops (escape_body s) @ [dquote]"
  using rewrite_words_literals rewrite_words_show_int rewrite_words_quote by simp_all

lemma RW_arr: "RW (JArr xs) = CHR ''['' # join '','' (map RW xs) @ '']''"
proof -
  let ?J = "join '','' (map JSON_stringify xs)"
  have "rewrite_words (?J @ '']'') = rewrite_words ?J @ rewrite_words '']''"
    using rewrite_words_split [of "'']''" ?J] not_word_punct(4) by simp
  then show ?thesis
    by (simp add: rewrite_words_join comp_def rewrite_words_nonword not_word_punct)
qed

lemma RW_entry:
  "rewrite_words (quote k @ '':'' @ JSON_stringify v) =
     dquote # replace_ops (escape_body k) @ dquote # CHR '':'' # RW v"
proof -
  have "rewrite_words (quote k @ CHR '':'' # JSON_stringify v) =
          rewrite_words (quote k) @ rewrite_words (CHR '':'' # JSON_stringify v)"
    using rewrite_words_split [of "CHR '':'' # JSON_stringify v" "quote k"] not_word_punct(2) by simp
  then show ?thesis
    by (simp add: rewrite_words_quote rewrite_words_nonword not_word_punct(2))
qed

lemma RW_obj:
  "RW (JObj kvs) =
     CHR ''{'' # join '','' (map (\<lambda>(k, v).
        dquote # replace_ops (escape_body k) @ dquote # CHR '':'' # RW v) kvs) @ ''}''"
proof -
  let ?J = "join '','' (map (\<lambda>(k, v). quote k @ '':'' @ JSON_stringify v) kvs)"
  have "rewrite_words (?J @ ''}'') = rewrite_words ?J @ rewrite_words ''}''"
    using rewrite_words_split [of "''}''" ?J] not_word_punct(6) by simp
  moreover have "map (\<lambda>x. rewrite_words (case x of (k, v) \<Rightarrow> quote k @ CHR '':'' # JSON_stringify v)) kvs =
      map (\<lambda>(k, v). dquote # replace_ops (escape_body k) @ dquote # CHR '':'' # RW v) kvs"
    using RW_entry by (intro map_cong [OF refl]) auto
  ultimately show ?thesis
    by (simp add: rewrite_words_join rewrite_words_nonword not_word_punct comp_def)
qed

lemma lex_Nil: "lex_all [] = Inr []"
  by (simp add: lex_all.simps)

lemma lex_nonspace:
  "\<not> is_json_space c \<Longrightarrow>
     lex_all (c # cs) = (case lex_token (c # cs) of
                      Inl e \<Rightarrow> Inl e
                    | Inr (t, rest) \<Rightarrow> cons_tok t (lex_all rest))"
  by (subst lex_all.simps) simp

lemma lexes_Some_Nil: "lexes (Some []) r = lex_all r"
  by (simp add: lexes_def split: sum.splits)

lemma cons_tok_lexes: "cons_tok t (lexes res r) = lexes (map_option ((#) t) res) r"
  by (cases res) (simp_all add: lexes_def cons_tok_def split: sum.splits)

lemma cons_tok_lex: "cons_tok t (lex_all r) = lexes (Some [t]) r"
  by (simp add: lexes_def cons_tok_def split: sum.splits)

lemma lexes_app:
  "(case a of None \<Rightarrow> Inl SyntaxError
    | Some ta \<Rightarrow> (case lexes b r of Inl e \<Rightarrow> Inl e | Inr ts' \<Rightarrow> Inr (ta @ ts'))) =
   lexes (app_opt a b) r"
  by (cases a; cases b) (simp_all add: lexes_def app_opt_def split: sum.splits)

lemma lexes_then:
  assumes "lex_all s = lexes a x" and "lex_all x = lexes b r"
  shows "lex_all s = lexes (app_opt a b) r"
  using assms by (cases a; cases b) (simp_all add: lexes_def app_opt_def split: sum.splits)

lemma lex_punct:
  "punctuation c = Some t \<Longrightarrow> lex_all (c # cs) = lexes (Some [t]) cs"
proof -
  assume p: "punctuation c = Some t"
  then have "\<not> is_json_space c"
    by (auto simp: punctuation_def is_json_space_def split: if_splits)
  then show ?thesis using p by (simp add: lex_nonspace lex_token_def cons_tok_lex)
qed

lemma punct_simps:
  "punctuation CHR ''{'' = Some TLBrace" "punctuation CHR ''}'' = Some TRBrace"
  "punctuation CHR ''['' = Some TLBracket" "punctuation CHR '']'' = Some TRBracket"
  "punctuation CHR '':'' = Some TColon" "punctuation CHR '','' = Some TComma"
  by (simp_all add: punctuation_def)

lemma lex_str:
  "lex_all (dquote # replace_ops (escape_body s) @ dquote # r) =
     lexes (map_option (\<lambda>s'. [TStr s']) (rw_string s)) r"
proof -
  have "\<not> is_json_space dquote" "punctuation dquote = None"
    by (simp_all add: is_json_space_def punctuation_def dquote_def)
  then show ?thesis
    by (cases "rw_string s")
       (simp_all add: lex_nonspace lex_token_def rw_string_lex lexed_def cons_tok_lex lexes_def)
qed

lemma lex_literal_tok:
  "lex_all (''null'' @ r) = lexes (Some [TNull]) r"
  "lex_all (''true'' @ r) = lexes (Some [TTrue]) r"
  "lex_all (''false'' @ r) = lexes (Some [TFalse]) r"
  by (simp_all add: lex_nonspace is_json_space_def lex_token_def punctuation_def dquote_def
      is_digit_def lex_literal_def cons_tok_lex)

lemma digit_char_zero: "d < 10 \<Longrightarrow> (digit_char d = CHR ''0'') = (d = 0)"
proof -
  assume "d < 10"
  then have "d = 0 \<or> d = 1 \<or> d = 2 \<or> d = 3 \<or> d = 4 \<or> d = 5 \<or> d = 6 \<or> d = 7 \<or> d = 8 \<or> d = 9"
    by arith
  then show ?thesis by (elim disjE) (simp_all add: digit_char_def)
qed

lemma digits_hd_zero: "0 < n \<Longrightarrow> hd (digits n) \<noteq> CHR ''0''"
proof (induction n rule: digits.induct)
  case (1 n)
  show ?case
  proof (cases "n < 10")
    case True
    then show ?thesis using 1(2) by (subst digits.simps) (simp add: digit_char_zero)
  next
    case False
    then have "hd (digits (n div 10)) \<noteq> CHR ''0''" using 1(1) by simp
    then show ?thesis using False digits_nonempty [of "n div 10"]
      by (subst digits.simps) simp
  qed
qed

lemma digits_zero: "digits 0 = ''0''"
  by (subst digits.simps) (simp add: digit_char_def)

lemma digits_no_leading_zero: "\<not> (hd (digits n) = CHR ''0'' \<and> 1 < length (digits n))"
  using digits_hd_zero [of n] digits_zero by (cases "n = 0") auto

lemma delim_not_digit:
  "delim r \<Longrightarrow> (r = [] \<or> \<not> is_digit (hd r)) \<and>
     \<not> (r \<noteq> [] \<and> hd r \<in> {CHR ''.'', CHR ''e'', CHR ''E''})"
  by (auto simp: delim_def is_digit_def)

lemma lex_number_digits:
  assumes "delim r"
  shows "lex_number (digits m @ r) = Inr (int m, r)"
proof -
  have nd: "r = [] \<or> \<not> is_digit (hd r)" using delim_not_digit [OF assms] by simp
  have tw: "takeWhile is_digit (digits m @ r) = digits m"
    using takeWhile_append_stop [where P = is_digit and b = r and a = "digits m"] nd
      digits_all_digit [of m]
    by (simp add: takeWhile_eq_all_conv)
  have dw: "dropWhile is_digit (digits m @ r) = r"
    using dropWhile_append_stop [where P = is_digit and b = r and a = "digits m"] nd
      digits_all_digit [of m]
    by (simp add: dropWhile_eq_Nil_conv)
  have hd: "hd (digits m @ r) \<noteq> CHR ''-''"
    using digits_all_digit [of m] digits_nonempty [of m]
    by (cases "digits m") (auto simp: is_digit_def)
  show ?thesis
    unfolding lex_number_def Let_def
    using hd digits_nonempty [of m] digits_no_leading_zero [of m] delim_not_digit [OF assms]
    by (simp add: tw dw digits_val_digits)
qed

lemma lex_number_show_int:
  assumes "delim r"
  shows "lex_number (show_int n @ r) = Inr (n, r)"
proof (cases "n < 0")
  case False
  then show ?thesis using lex_number_digits [OF assms, of "nat n"] by (simp add: show_int_def)
next
  case True
  let ?m = "nat (- n)"
  have nd: "r = [] \<or> \<not> is_digit (hd r)" using delim_not_digit [OF assms] by simp
  have tw: "takeWhile is_digit (digits ?m @ r) = digits ?m"
    using takeWhile_append_stop [where P = is_digit and b = r and a = "digits ?m"] nd
      digits_all_digit [of ?m]
    by (simp add: takeWhile_eq_all_conv)
  have dw: "dropWhile is_digit (digits ?m @ r) = r"
    using dropWhile_append_stop [where P = is_digit and b = r and a = "digits ?m"] nd
      digits_all_digit [of ?m]
    by (simp add: dropWhile_eq_Nil_conv)
  show ?thesis
    unfolding lex_number_def Let_def show_int_def
    using True digits_nonempty [of ?m] digits_no_leading_zero [of ?m] delim_not_digit [OF assms]
    by (simp add: tw dw digits_val_digits)
qed

lemma lex_num:
  assumes "delim r"
  shows "lex_all (show_int n @ r) = lexes (Some [TNum n]) r"
proof -
  have "\<exists>c cs. show_int n = c # cs \<and> (c = CHR ''-'' \<or> is_digit c)"
  proof (cases "n < 0")
    case True
    then show ?thesis by (simp add: show_int_def)
  next
    case False
    then show ?thesis
      using digits_all_digit [of "nat n"] digits_nonempty [of "nat n"]
      by (cases "digits (nat n)") (auto simp: show_int_def)
  qed
  then obtain c cs where s: "show_int n = c # cs" and c: "c = CHR ''-'' \<or> is_digit c"
    by blast
  have "\<not> is_json_space c" "punctuation c = None" "c \<noteq> dquote"
    using c by (auto simp: is_json_space_def punctuation_def dquote_def is_digit_def)
  then have "lex_all ((c # cs) @ r) = lexes (Some [TNum n]) r"
    using c lex_number_show_int [OF assms, of n] s
    by (simp add: lex_nonspace lex_token_def cons_tok_lex)
  then show ?thesis using s by simp
qed

lemma app_opt_simps:
  "app_opt None b = None" "app_opt (Some x) (Some y) = Some (x @ y)" "app_opt (Some x) None = None"
  by (simp_all add: app_opt_def)

lemma delim_simps: "delim []" "delim (CHR '','' # r)" "delim (CHR '']'' # r)" "delim (CHR ''}'' # r)"
  by (simp_all add: delim_def)

lemma lex_items_tail:
  assumes item: "\<And>x r. x \<in> set xs \<Longrightarrow> delim r \<Longrightarrow> lex_all (str x @ r) = lexes (map_option tk (rw x)) r"
    and cl: "punctuation cl = Some tcl" "delim (cl # r)"
  shows "lex_all (concat (map (\<lambda>x. CHR '','' # str x) xs) @ cl # r) =
           lexes (map_option (\<lambda>ys. concat (map (\<lambda>y. TComma # tk y) ys) @ [tcl])
                    (those (map rw xs))) r"
  using item
proof (induction xs)
  case Nil
  then show ?case using lex_punct [OF cl(1)] by simp
next
  case (Cons x xs)
  let ?Y = "concat (map (\<lambda>x. CHR '','' # str x) xs) @ cl # r"
  have dY: "delim ?Y" using cl(2) by (cases xs) (simp_all add: delim_simps)
  have 1: "lex_all (CHR '','' # str x @ ?Y) = lexes (Some [TComma]) (str x @ ?Y)"
    using lex_punct [OF punct_simps(6)] by simp
  have 2: "lex_all (str x @ ?Y) = lexes (map_option tk (rw x)) ?Y"
    using Cons.prems [OF _ dY] by simp
  have 3: "lex_all ?Y = lexes (map_option (\<lambda>ys. concat (map (\<lambda>y. TComma # tk y) ys) @ [tcl])
                    (those (map rw xs))) r"
    using Cons.IH Cons.prems by simp
  have "lex_all (CHR '','' # str x @ ?Y) =
      lexes (app_opt (Some [TComma]) (app_opt (map_option tk (rw x))
        (map_option (\<lambda>ys. concat (map (\<lambda>y. TComma # tk y) ys) @ [tcl]) (those (map rw xs))))) r"
    using lexes_then [OF 1 lexes_then [OF 2 3]] .
  moreover have "app_opt (Some [TComma]) (app_opt (map_option tk (rw x))
        (map_option (\<lambda>ys. concat (map (\<lambda>y. TComma # tk y) ys) @ [tcl]) (those (map rw xs)))) =
      map_option (\<lambda>ys. concat (map (\<lambda>y. TComma # tk y) ys) @ [tcl]) (those (map rw (x # xs)))"
    by (cases "rw x"; cases "those (map rw xs)") (simp_all add: app_opt_simps)
  ultimately show ?case by simp
qed

lemma lex_items:
  assumes item: "\<And>x r. x \<in> set xs \<Longrightarrow> delim r \<Longrightarrow> lex_all (str x @ r) = lexes (map_option tk (rw x)) r"
    and opn: "punctuation opn = Some topn"
    and cl: "punctuation cl = Some tcl" "delim (cl # r)"
  shows "lex_all (opn # join '','' (map str xs) @ cl # r) =
           lexes (map_option (\<lambda>ys. topn # join [TComma] (map tk ys) @ [tcl])
                    (those (map rw xs))) r"
proof (cases xs)
  case Nil
  have "lex_all (opn # cl # r) = lexes (app_opt (Some [topn]) (Some [tcl])) r"
    using lexes_then [OF lex_punct [OF opn] lex_punct [OF cl(1)]] .
  then show ?thesis using Nil by (simp add: join_def app_opt_simps)
next
  case (Cons x xs')
  let ?Y = "concat (map (\<lambda>x. CHR '','' # str x) xs') @ cl # r"
  have dY: "delim ?Y" using cl(2) by (cases xs') (simp_all add: delim_simps)
  have 1: "lex_all (opn # str x @ ?Y) = lexes (Some [topn]) (str x @ ?Y)"
    using lex_punct [OF opn] by simp
  have 2: "lex_all (str x @ ?Y) = lexes (map_option tk (rw x)) ?Y"
    using item [OF _ dY, of x] Cons by simp
  have 3: "lex_all ?Y = lexes (map_option (\<lambda>ys. concat (map (\<lambda>y. TComma # tk y) ys) @ [tcl])
                    (those (map rw xs'))) r"
    using lex_items_tail [of xs' str tk rw cl tcl r] item cl Cons by simp
  have "lex_all (opn # str x @ ?Y) =
      lexes (app_opt (Some [topn]) (app_opt (map_option tk (rw x))
        (map_option (\<lambda>ys. concat (map (\<lambda>y. TComma # tk y) ys) @ [tcl]) (those (map rw xs'))))) r"
    using lexes_then [OF 1 lexes_then [OF 2 3]] .
  moreover have "app_opt (Some [topn]) (app_opt (map_option tk (rw x))
        (map_option (\<lambda>ys. concat (map (\<lambda>y. TComma # tk y) ys) @ [tcl]) (those (map rw xs')))) =
      map_option (\<lambda>ys. topn # join [TComma] (map tk ys) @ [tcl]) (those (map rw (x # xs')))"
    by (cases "rw x"; cases "those (map rw xs')") (simp_all add: app_opt_simps join_Cons comp_def)
  ultimately show ?thesis using Cons by (simp add: join_Cons comp_def)
qed

lemma rewrite_strings_obj:
  "rewrite_strings (JObj kvs) = map_option JObj (those (map rw_member kvs))"
proof -
  have "map (\<lambda>(k, v). case rw_string k of None \<Rightarrow> None
                     | Some k' \<Rightarrow> map_option (Pair k') (rewrite_strings v)) kvs = map rw_member kvs"
    by (intro map_cong [OF refl]) (auto simp: rw_member_def)
  then show ?thesis by (simp only: rewrite_strings.simps)
qed

lemma lex_RW:
  "delim r \<Longrightarrow> lex_all (RW v @ r) = lexes (map_option toks (rewrite_strings v)) r"
proof (induction v arbitrary: r)
  case JNull
  then show ?case unfolding RW_scalar using lex_literal_tok(1) by simp
next
  case (JBool b)
  then show ?case unfolding RW_scalar using lex_literal_tok(2,3) by simp
next
  case (JNum n)
  then show ?case unfolding RW_scalar using lex_num by simp
next
  case (JStr s)
  then show ?case unfolding RW_scalar using lex_str [of s r]
    by (simp add: option.map_comp comp_def)
next
  case (JArr xs)
  have "lex_all (CHR ''['' # join '','' (map RW xs) @ CHR '']'' # r) =
          lexes (map_option (\<lambda>ys. TLBracket # join [TComma] (map toks ys) @ [TRBracket])
                   (those (map rewrite_strings xs))) r"
    using JArr.IH by (intro lex_items) (simp_all add: punct_simps delim_simps)
  then show ?case unfolding RW_arr by (simp add: option.map_comp comp_def)
next
  case (JObj kvs)
  let ?str = "\<lambda>(k, v). dquote # replace_ops (escape_body k) @ dquote # CHR '':'' # RW v"
  let ?tk = "\<lambda>(k, v). TStr k # TColon # toks v"
  have item: "lex_all (?str x @ r') = lexes (map_option ?tk (rw_member x)) r'"
    if "x \<in> set kvs" "delim r'" for x r'
  proof -
    obtain k v where x: "x = (k, v)" by (cases x)
    have 1: "lex_all (dquote # replace_ops (escape_body k) @ dquote # CHR '':'' # RW v @ r') =
        lexes (map_option (\<lambda>s'. [TStr s']) (rw_string k)) (CHR '':'' # RW v @ r')"
      using lex_str [of k "CHR '':'' # RW v @ r'"] by simp
    have 2: "lex_all (CHR '':'' # RW v @ r') = lexes (Some [TColon]) (RW v @ r')"
      using lex_punct [OF punct_simps(5)] by simp
    have 3: "lex_all (RW v @ r') = lexes (map_option toks (rewrite_strings v)) r'"
      using JObj.IH [of x v] that x by simp
    have "lex_all (?str x @ r') =
        lexes (app_opt (map_option (\<lambda>s'. [TStr s']) (rw_string k))
          (app_opt (Some [TColon]) (map_option toks (rewrite_strings v)))) r'"
      using lexes_then [OF 1 lexes_then [OF 2 3]] x by simp
    moreover have "app_opt (map_option (\<lambda>s'. [TStr s']) (rw_string k))
          (app_opt (Some [TColon]) (map_option toks (rewrite_strings v))) =
        map_option ?tk (rw_member x)"
      by (cases "rw_string k"; cases "rewrite_strings v") (simp_all add: app_opt_simps rw_member_def x)
    ultimately show ?thesis by simp
  qed
  have "lex_all (CHR ''{'' # join '','' (map ?str kvs) @ CHR ''}'' # r) =
          lexes (map_option (\<lambda>ys. TLBrace # join [TComma] (map ?tk ys) @ [TRBrace])
                   (those (map rw_member kvs))) r"
    using item by (intro lex_items) (simp_all add: punct_simps delim_simps)
  then show ?case unfolding RW_obj rewrite_strings_obj by (simp add: option.map_comp comp_def)
qed

lemma toks_hd: "\<exists>t rest. toks v = t # rest \<and> t \<noteq> TRBracket"
  by (cases v) auto

lemma run_first_elem:
  "run (S_first_elem stk) (toks v @ ts) = run (S_value (ArrF [] # stk)) (toks v @ ts)"
proof -
  obtain t rest where "toks v = t # rest" "t \<noteq> TRBracket" using toks_hd by blast
  then show ?thesis by simp
qed

lemma run_elems_tail:
  assumes "\<And>x stk ts. x \<in> set xs \<Longrightarrow>
             run (S_value stk) (toks x @ ts) = run (deliver (JSON_normal x) stk) ts"
  shows "run (S_after_elem acc stk) (concat (map (\<lambda>z. TComma # z) (map toks xs)) @ TRBracket # ts) =
           run (deliver (JArr (acc @ map JSON_normal xs)) stk) ts"
  using assms
proof (induction xs arbitrary: acc)
  case Nil
  then show ?case by simp
next
  case (Cons x xs)
  have "run (S_value (ArrF acc # stk))
          (toks x @ concat (map (\<lambda>z. TComma # z) (map toks xs)) @ TRBracket # ts) =
        run (S_after_elem (acc @ [JSON_normal x]) stk)
          (concat (map (\<lambda>z. TComma # z) (map toks xs)) @ TRBracket # ts)"
    using Cons.prems [of x] by simp
  moreover have "run (S_after_elem (acc @ [JSON_normal x]) stk)
          (concat (map (\<lambda>z. TComma # z) (map toks xs)) @ TRBracket # ts) =
      run (deliver (JArr ((acc @ [JSON_normal x]) @ map JSON_normal xs)) stk) ts"
    by (rule Cons.IH) (use Cons.prems in auto)
  ultimately show ?case by simp
qed

lemma run_members_tail:
  assumes "\<And>k v stk ts. (k, v) \<in> set kvs \<Longrightarrow>
             run (S_value stk) (toks v @ ts) = run (deliver (JSON_normal v) stk) ts"
  shows "run (S_after_member acc stk)
           (concat (map (\<lambda>z. TComma # z) (map (\<lambda>(k, v). TStr k # TColon # toks v) kvs)) @ TRBrace # ts) =
         run (deliver (JObj (foldl (\<lambda>ms (k, v). AList.update k (JSON_normal v) ms) acc kvs)) stk) ts"
  using assms
proof (induction kvs arbitrary: acc)
  case Nil
  then show ?case by simp
next
  case (Cons kv kvs)
  obtain k v where kv: "kv = (k, v)" by (cases kv)
  let ?R = "concat (map (\<lambda>z. TComma # z) (map (\<lambda>(k, v). TStr k # TColon # toks v) kvs)) @ TRBrace # ts"
  have "run (S_value (ObjF acc k # stk)) (toks v @ ?R) =
        run (S_after_member (AList.update k (JSON_normal v) acc) stk) ?R"
    using Cons.prems [of k v] kv by simp
  moreover have "run (S_after_member (AList.update k (JSON_normal v) acc) stk) ?R =
      run (deliver (JObj (foldl (\<lambda>ms (k, v). AList.update k (JSON_normal v) ms)
        (AList.update k (JSON_normal v) acc) kvs)) stk) ts"
    by (rule Cons.IH) (use Cons.prems in auto)
  ultimately show ?case using kv by simp
qed

lemma run_toks:
  "run (S_value stk) (toks v @ ts) = run (deliver (JSON_normal v) stk) ts"
proof (induction v arbitrary: stk ts)
  case (JArr xs)
  show ?case
  proof (cases xs)
    case Nil
    then show ?thesis by (simp add: join_def)
  next
    case (Cons x xs')
    let ?R = "concat (map (\<lambda>z. TComma # z) (map toks xs')) @ TRBracket # ts"
    have "run (S_first_elem stk) (toks x @ ?R) = run (S_value (ArrF [] # stk)) (toks x @ ?R)"
      by (rule run_first_elem)
    also have "\<dots> = run (S_after_elem [JSON_normal x] stk) ?R"
      using JArr [of x] Cons by simp
    also have "\<dots> = run (deliver (JArr ([JSON_normal x] @ map JSON_normal xs')) stk) ts"
      using JArr Cons by (intro run_elems_tail) simp
    finally show ?thesis using Cons by (simp add: join_Cons comp_def)
  qed
next
  case (JObj kvs)
  show ?case
  proof (cases kvs)
    case Nil
    then show ?thesis by (simp add: join_def)
  next
    case (Cons kv kvs')
    obtain k v where kv: "kv = (k, v)" by (cases kv)
    let ?R = "concat (map (\<lambda>z. TComma # z) (map (\<lambda>(k, v). TStr k # TColon # toks v) kvs')) @ TRBrace # ts"
    have "run (S_value (ObjF [] k # stk)) (toks v @ ?R) =
          run (S_after_member (AList.update k (JSON_normal v) []) stk) ?R"
      using JObj [of kv v] Cons kv by simp
    also have "\<dots> = run (deliver (JObj (foldl (\<lambda>ms (k, v). AList.update k (JSON_normal v) ms)
        (AList.update k (JSON_normal v) []) kvs')) stk) ts"
    proof (intro run_members_tail)
      fix k' v' stk' ts'
      assume "(k', v') \<in> set kvs'"
      then show "run (S_value stk') (toks v' @ ts') = run (deliver (JSON_normal v') stk') ts'"
        using JObj [of "(k', v')" v'] Cons by simp
    qed
    finally show ?thesis using Cons kv by (simp add: join_Cons comp_def)
  qed
qed simp_all

text \<open>
  The three steps of lines 31 to 37 together: serializing a value, rewriting the
  text and parsing it back rewrites every key and every string on its own and rebuilds
  the objects; the only failure is a \<^verbatim>\<open>SyntaxError\<close>.
\<close>

lemma parse_rewritten:
  "JSON_parse (replace_ops (JSON_stringify v)) =
     (case rewrite_json v of None \<Rightarrow> Inl SyntaxError | Some v' \<Rightarrow> Inr v')"
proof -
  have l: "lex_all (RW v) = lexes (map_option toks (rewrite_strings v)) []"
    using lex_RW [of "[]" v] by (simp add: delim_simps)
  show ?thesis
  proof (cases "rewrite_strings v")
    case None
    then show ?thesis
      using l by (simp add: JSON_parse_def replace_ops_def replace_from_rewrite_words
          lexes_def rewrite_json_def)
  next
    case (Some v')
    have "run (S_value []) (toks v' @ []) = run (deliver (JSON_normal v') []) []"
      by (rule run_toks)
    then show ?thesis
      using l Some by (simp add: JSON_parse_def replace_ops_def replace_from_rewrite_words
          lexes_def rewrite_json_def lex_Nil)
  qed
qed

declare rewrite_strings.simps(6) [simp del]

lemma delete_dom: "fst ` set (AList.delete k al) = fst ` set al - {k}"
  by (induction al) auto

lemma those_map_Some: "(\<And>x. x \<in> set xs \<Longrightarrow> f x = Some (g x)) \<Longrightarrow> those (map f xs) = Some (map g xs)"
  by (induction xs) simp_all

lemma those_map_set:
  "those (map f xs) = Some ys \<Longrightarrow> \<forall>y \<in> set ys. \<exists>x \<in> set xs. f x = Some y"
proof (induction xs arbitrary: ys)
  case Nil
  then show ?case by simp
next
  case (Cons x xs)
  from Cons.prems obtain a z where a: "f x = Some a" and z: "those (map f xs) = Some z"
    and ys: "ys = a # z" by (auto split: option.splits)
  have "\<forall>y \<in> set z. \<exists>x \<in> set xs. f x = Some y" using Cons.IH [OF z] .
  then show ?case using a ys by auto
qed

lemma rewrite_strings_plain: "plain_json v \<Longrightarrow> rewrite_strings v = Some (map_strings replace_ops v)"
proof (induction v)
  case (JStr s)
  then show ?case using rw_string_plain [of s] by (simp add: list_all_iff)
next
  case (JArr xs)
  have "those (map rewrite_strings xs) = Some (map (map_strings replace_ops) xs)"
    using JArr by (intro those_map_Some) (simp add: list_all_iff)
  then show ?case by simp
next
  case (JObj kvs)
  have "those (map rw_member kvs) =
      Some (map (\<lambda>(k, v). (replace_ops k, map_strings replace_ops v)) kvs)"
  proof (intro those_map_Some)
    fix x assume x: "x \<in> set kvs"
    obtain k v where kv: "x = (k, v)" by (cases x)
    have "list_all plain k" "plain_json v" using JObj.prems x kv by (auto simp: list_all_iff)
    then have "rw_string k = Some (replace_ops k)"
      "rewrite_strings v = Some (map_strings replace_ops v)"
      using rw_string_plain [of k] JObj.IH [of x v] x kv by (simp_all add: list_all_iff)
    then show "rw_member x = Some (case x of (k, v) \<Rightarrow> (replace_ops k, map_strings replace_ops v))"
      by (simp add: rw_member_def kv)
  qed
  then show ?case by (simp only: rewrite_strings_obj) simp
qed simp_all

lemma queryObj_keys: "fst ` set (queryObj qs) = fst ` set qs - set excludedFields"
proof -
  have "fst ` set (foldl (\<lambda>obj el. AList.delete el obj) qs ks) = fst ` set qs - set ks" for ks
    by (induction ks arbitrary: qs) (auto simp: delete_dom)
  then show ?thesis by (simp add: queryObj_def)
qed

lemma update_fold_keys:
  "fst ` set (foldl (\<lambda>ms (k, v). AList.update k (g v) ms) acc kvs) = fst ` set acc \<union> fst ` set kvs"
proof (induction kvs arbitrary: acc)
  case Nil
  then show ?case by simp
next
  case (Cons kv kvs)
  obtain k v where kv: "kv = (k, v)" by (cases kv)
  have "fst ` set (foldl (\<lambda>ms (k, v). AList.update k (g v) ms) acc (kv # kvs)) =
      fst ` set (AList.update k (g v) acc) \<union> fst ` set kvs"
    using Cons.IH [of "AList.update k (g v) acc"] kv by simp
  also have "\<dots> = fst ` set acc \<union> fst ` set (kv # kvs)"
    unfolding dom_update kv by auto
  finally show ?case .
qed

lemma rewrite_json_obj:
  assumes "rewrite_json (JObj q) = Some v'"
  shows "\<exists>ms. v' = JObj ms \<and> (\<forall>k' \<in> fst ` set ms. \<exists>k \<in> fst ` set q. rw_string k = Some k')"
proof -
  from assms obtain ys where ys: "those (map rw_member q) = Some ys"
    and v': "v' = JSON_normal (JObj ys)"
    by (auto simp: rewrite_json_def rewrite_strings_obj)
  let ?ms = "foldl (\<lambda>ms (k, v). AList.update k (JSON_normal v) ms) [] ys"
  have "fst ` set ?ms = fst ` set ys" using update_fold_keys [of JSON_normal "[]" ys] by simp
  moreover have "\<forall>y \<in> set ys. \<exists>x \<in> set q. rw_string (fst x) = Some (fst y)"
  proof
    fix y assume "y \<in> set ys"
    then obtain x where x: "x \<in> set q" "rw_member x = Some y" using those_map_set [OF ys] by blast
    moreover obtain k v where "x = (k, v)" by (cases x)
    ultimately have "rw_string (fst x) = Some (fst y)"
      by (auto simp: rw_member_def split: option.splits)
    then show "\<exists>x \<in> set q. rw_string (fst x) = Some (fst y)" using x(1) by blast
  qed
  ultimately have "\<forall>k' \<in> fst ` set ?ms. \<exists>k \<in> fst ` set q. rw_string k = Some k'" by force
  then show ?thesis using v' by simp
qed

lemma build_filters_rewrite:
  "build_filters qs =
     (case rewrite_json (JObj (queryObj qs)) of
        None \<Rightarrow> Inl SyntaxError
      | Some v \<Rightarrow> Inr (apply_dateFilter (entries v)))"
proof (cases "rewrite_json (JObj (queryObj qs))")
  case None
  then show ?thesis unfolding build_filters_def parse_rewritten Let_def by simp
next
  case (Some v)
  then obtain ms where "v = JObj ms" using rewrite_json_obj by blast
  then show ?thesis using Some unfolding build_filters_def parse_rewritten Let_def
    by (simp add: entries_def)
qed

lemma excluded_no_dollar: "k \<in> set excludedFields \<Longrightarrow> CHR ''$'' \<notin> set k \<and> k \<noteq> ''date''"
  by (auto simp: excludedFields_def)

lemma apply_dateFilter_keys: "fst ` set (apply_dateFilter kvs) \<subseteq> insert ''date'' (fst ` set kvs)"
proof -
  have m: "fst ` (\<lambda>(k, v). (k, Plain v)) ` set kvs = fst ` set kvs"
    by force
  show ?thesis
    unfolding apply_dateFilter_def Let_def
    by (cases "get_prop kvs ''date''") (auto simp: m dom_update)
qed

lemma build_filters_no_reserved:
  assumes "build_filters qs = Inr filters" and "k \<in> set excludedFields"
  shows "get_prop filters k = None"
proof -
  from assms(1) obtain v where v: "rewrite_json (JObj (queryObj qs)) = Some v"
    and f: "filters = apply_dateFilter (entries v)"
    by (auto simp: build_filters_rewrite split: option.splits)
  from rewrite_json_obj [OF v] obtain ms where ms: "v = JObj ms"
    and keys: "\<forall>k' \<in> fst ` set ms. \<exists>k \<in> fst ` set (queryObj qs). rw_string k = Some k'"
    by blast
  have "k \<notin> fst ` set ms"
  proof
    assume "k \<in> fst ` set ms"
    then obtain k0 where k0: "k0 \<in> fst ` set (queryObj qs)" "rw_string k0 = Some k"
      using keys by blast
    then have "k = k0 \<or> CHR ''$'' \<in> set k" using rw_string_dollar by blast
    moreover have "k0 \<notin> set excludedFields" using k0(1) by (simp add: queryObj_keys)
    ultimately show False using assms(2) excluded_no_dollar by blast
  qed
  then have "k \<notin> fst ` set filters"
    using apply_dateFilter_keys [of ms] excluded_no_dollar [OF assms(2)] f ms
    by (auto simp: entries_def)
  then show ?thesis by (simp add: get_prop_def map_of_eq_None_iff)
qed

text \<open>
  C7. Whenever \<^verbatim>\<open>filter\<close> returns, the predicate it has given to the handle has no
  entry under any of the six reserved keys.
\<close>

theorem filter_no_reserved_key:
  assumes "ApiFeatures_filter countDocuments this = Inr (this', sent)"
    and "k \<in> set excludedFields"
  shows "\<exists>filters. conditions (query this') = conditions (query this) @ [Filters filters] \<and>
           get_prop filters k = None"
proof -
  from assms(1) obtain filters where b: "build_filters (queryString this) = Inr filters"
    and q: "query this' = Query_find (Filters filters) (query this)"
    unfolding ApiFeatures_filter_def Let_def by (auto split: sum.splits if_splits)
  show ?thesis
    using build_filters_no_reserved [OF b assms(2)] q by (auto simp: Query_find_def)
qed

theorem filter_no_reserved_key_witness:
  "ApiFeatures_filter (\<lambda>p. Inr 1)
     (new_ApiFeatures fresh_Query
        [(''page'', JStr ''2''), (''sort'', JStr ''-price''), (''limit'', JStr ''10''),
         (''fields'', JStr ''name''), (''search'', JStr ''al''), (''populate'', JStr ''owner''),
         (''name'', JStr ''Alice'')]) =
   Inr (\<lparr> query = fresh_Query\<lparr>conditions := [Filters [(''name'', Plain (JStr ''Alice''))]]\<rparr>,
          queryString =
            [(''page'', JStr ''2''), (''sort'', JStr ''-price''), (''limit'', JStr ''10''),
             (''fields'', JStr ''name''), (''search'', JStr ''al''), (''populate'', JStr ''owner''),
             (''name'', JStr ''Alice'')],
          total = Some 1 \<rparr>,
        [Filters [(''name'', Plain (JStr ''Alice''))]])
   \<and> get_prop [(''name'', Plain (JStr ''Alice''))] ''page'' = None"
proof -
  let ?qs = "[(''page'', JStr ''2''), (''sort'', JStr ''-price''), (''limit'', JStr ''10''),
         (''fields'', JStr ''name''), (''search'', JStr ''al''), (''populate'', JStr ''owner''),
         (''name'', JStr ''Alice'')]"
  let ?f = "[(''name'', Plain (JStr ''Alice''))]"
  let ?t' = "\<lparr> query = fresh_Query\<lparr>conditions := [Filters ?f]\<rparr>, queryString = ?qs, total = Some 1 \<rparr>"
  have e: "ApiFeatures_filter (\<lambda>p. Inr 1) (new_ApiFeatures fresh_Query ?qs) = Inr (?t', [Filters ?f])"
    by code_simp
  have k: "''page'' \<in> set excludedFields" by (simp add: excludedFields_def)
  from filter_no_reserved_key [OF e k]
  obtain filters where "conditions (query ?t') =
      conditions (query (new_ApiFeatures fresh_Query ?qs)) @ [Filters filters]"
    and g: "get_prop filters ''page'' = None" by blast
  then have "filters = ?f" by (simp add: new_ApiFeatures_def fresh_Query_def)
  then show ?thesis using e g by simp
qed

subsection \<open>Distinct keys stay distinct\<close>

declare strip_ops.simps(2) [simp del]

lemma not_word_dollar: "\<not> is_word CHR ''$''"
  by (simp add: is_word_def)

lemma rewrite_words_starts:
  "s = [] \<or> \<not> is_word (hd s) \<Longrightarrow> rewrite_words s = [] \<or> \<not> is_word (hd (rewrite_words s))"
  by (cases s) (auto simp: rewrite_words_nonword)

lemma dropWhile_starts: "dropWhile P s = [] \<or> \<not> P (hd (dropWhile P s))"
  by (metis hd_dropWhile)

lemma takeWhile_rewrite_words: "takeWhile is_word (rewrite_words s) \<notin> set operators"
proof (cases s)
  case Nil
  then show ?thesis using operators_word by fastforce
next
  case (Cons c cs)
  let ?D = "dropWhile is_word cs"
  have st: "rewrite_words ?D = [] \<or> \<not> is_word (hd (rewrite_words ?D))"
    using rewrite_words_starts [OF dropWhile_starts] .
  show ?thesis
  proof (cases "is_word c")
    case False
    then have "takeWhile is_word (rewrite_words s) = []"
      using Cons by (simp add: rewrite_words_nonword)
    then show ?thesis using operators_word by fastforce
  next
    case True
    let ?w = "c # takeWhile is_word cs"
    show ?thesis
    proof (cases "?w \<in> set operators")
      case w: True
      then have "takeWhile is_word (rewrite_words s) = []"
        using Cons True by (simp add: rewrite_words_wordstart not_word_dollar)
      then show ?thesis using operators_word by fastforce
    next
      case w: False
      have "takeWhile is_word (?w @ rewrite_words ?D) = takeWhile is_word ?w"
        using takeWhile_append_stop [where P = is_word and a = ?w and b = "rewrite_words ?D"] st
        by blast
      moreover have "takeWhile is_word ?w = ?w"
        using True by (auto simp: takeWhile_eq_all_conv dest: set_takeWhileD)
      ultimately show ?thesis
        using Cons True w by (simp add: rewrite_words_wordstart)
    qed
  qed
qed

lemma strip_ops_rewrite_words: "strip_ops (rewrite_words s) = s"
proof (induction s rule: rewrite_words.induct)
  case 1
  then show ?case by simp
next
  case (2 c cs)
  show ?case
  proof (cases "is_word c")
    case False
    have "strip_ops (c # rewrite_words cs) = c # strip_ops (rewrite_words cs)"
      using False takeWhile_rewrite_words [of cs] by (simp add: strip_ops.simps(2))
    then show ?thesis using False 2(2) by (simp add: rewrite_words_nonword)
  next
    case True
    let ?tw = "takeWhile is_word cs"
    let ?D = "dropWhile is_word cs"
    let ?w = "c # ?tw"
    have ih: "strip_ops (rewrite_words ?D) = ?D" using 2(1) [OF True refl] by simp
    have st: "rewrite_words ?D = [] \<or> \<not> is_word (hd (rewrite_words ?D))"
      using rewrite_words_starts [OF dropWhile_starts] .
    have allw: "\<forall>x \<in> set ?w. is_word x" using True by (auto dest: set_takeWhileD)
    have tw: "takeWhile is_word (?w @ rewrite_words ?D) = ?w"
      using takeWhile_append_stop [where P = is_word and a = ?w and b = "rewrite_words ?D"] st allw
      by (simp add: takeWhile_eq_all_conv)
    have dw: "dropWhile is_word (?w @ rewrite_words ?D) = rewrite_words ?D"
      using dropWhile_append_stop [where P = is_word and a = ?w and b = "rewrite_words ?D"] st allw
      by (simp add: dropWhile_eq_Nil_conv)
    have tw': "takeWhile is_word (?tw @ rewrite_words ?D) = ?tw"
      using tw True by simp
    have dw': "dropWhile is_word (?tw @ rewrite_words ?D) = rewrite_words ?D"
      using dw True by simp
    have c: "c \<noteq> CHR ''$''" using True not_word_dollar by auto
    show ?thesis
    proof (cases "?w \<in> set operators")
      case w: True
      have "strip_ops (CHR ''$'' # ?w @ rewrite_words ?D) = ?w @ strip_ops (rewrite_words ?D)"
        using w tw dw by (subst strip_ops.simps(2)) (simp del: takeWhile.simps dropWhile.simps)
      then show ?thesis using True w ih by (simp add: rewrite_words_wordstart)
    next
      case w: False
      have "strip_ops (c # ?tw @ rewrite_words ?D) = c # ?tw @ strip_ops (rewrite_words ?D)"
        using c True tw' dw' by (subst strip_ops.simps(2)) simp
      then show ?thesis using True w ih by (simp add: rewrite_words_wordstart)
    qed
  qed
qed

lemma rewrite_words_inj: "inj rewrite_words"
  by (metis injI strip_ops_rewrite_words)

lemma update_fresh: "k \<notin> fst ` set al \<Longrightarrow> AList.update k v al = al @ [(k, v)]"
  by (induction al) auto

lemma foldl_update_distinct:
  "distinct (map fst kvs) \<Longrightarrow> fst ` set acc \<inter> fst ` set kvs = {} \<Longrightarrow>
     foldl (\<lambda>ms (k, v). AList.update k (g v) ms) acc kvs = acc @ map (\<lambda>(k, v). (k, g v)) kvs"
proof (induction kvs arbitrary: acc)
  case Nil
  then show ?case by simp
next
  case (Cons kv kvs)
  obtain k v where kv: "kv = (k, v)" by (cases kv)
  have k: "k \<notin> fst ` set acc" using Cons.prems(2) kv by auto
  have "foldl (\<lambda>ms (k, v). AList.update k (g v) ms) (acc @ [(k, g v)]) kvs =
      (acc @ [(k, g v)]) @ map (\<lambda>(k, v). (k, g v)) kvs"
    using Cons.prems kv by (intro Cons.IH) auto
  then show ?case using kv update_fresh [OF k] by simp
qed

lemma JSON_normal_distinct:
  "inj f \<Longrightarrow> distinct_keys v \<Longrightarrow> JSON_normal (map_strings f v) = map_strings f v"
proof (induction v)
  case (JArr xs)
  then show ?case by (simp add: list_all_iff)
next
  case (JObj kvs)
  let ?kvs' = "map (\<lambda>(k, v). (f k, map_strings f v)) kvs"
  have m: "map fst ?kvs' = map f (map fst kvs)" by (induction kvs) auto
  have "distinct (map f (map fst kvs))"
    using JObj.prems inj_on_subset [of f UNIV "set (map fst kvs)"]
    by (subst distinct_map) simp
  then have d: "distinct (map fst ?kvs')" unfolding m .
  have "foldl (\<lambda>ms (k, v). AList.update k (JSON_normal v) ms) [] ?kvs' =
      [] @ map (\<lambda>(k, v). (k, JSON_normal v)) ?kvs'"
    using d by (intro foldl_update_distinct) simp_all
  moreover have "map (\<lambda>(k, v). (k, JSON_normal v)) ?kvs' = ?kvs'"
  proof -
    have "(case (case x of (k, v) \<Rightarrow> (f k, map_strings f v)) of (k, v) \<Rightarrow> (k, JSON_normal v)) =
        (case x of (k, v) \<Rightarrow> (f k, map_strings f v))" if "x \<in> set kvs" for x
    proof -
      obtain k v where x: "x = (k, v)" by (cases x)
      have "distinct_keys v" using JObj.prems(2) that x by (auto simp: list_all_iff)
      then show ?thesis using JObj.IH [of x v] JObj.prems(1) that x by simp
    qed
    then show ?thesis by (simp add: comp_def)
  qed
  ultimately show ?case by simp
qed simp_all

lemma rewrite_json_plain_distinct:
  "plain_json v \<Longrightarrow> distinct_keys v \<Longrightarrow> rewrite_json v = Some (map_strings rewrite_words v)"
proof -
  assume p: "plain_json v" and d: "distinct_keys v"
  have r: "replace_ops = rewrite_words"
    by (rule ext) (simp add: replace_ops_def replace_from_rewrite_words)
  show ?thesis
    using rewrite_strings_plain [OF p] JSON_normal_distinct [OF rewrite_words_inj d]
    by (simp add: rewrite_json_def r)
qed

text \<open>
  The predicate in general: it is read back from the serialization of the non-reserved
  entries in which every whole word that is an operator has taken a dollar sign, in keys
  and in string values alike. When the keys and strings hold no quote, backslash or
  control character (and no object has a key twice), that is the rewriting done on each
  key and each string of the mapping.
\<close>

lemma build_filters_plain:
  assumes "plain_json (JObj (queryObj qs))" and "distinct_keys (JObj (queryObj qs))"
  shows "build_filters qs =
          Inr (apply_dateFilter
                 (map (\<lambda>(k, v). (rewrite_words k, map_strings rewrite_words v)) (queryObj qs)))"
  using rewrite_json_plain_distinct [OF assms] by (simp add: build_filters_rewrite entries_def)

end
